theory Spec2Isabelle
  imports Complex_Main "HOL-Library.AList"
begin

section \<open>Numbers\<close>

text \<open>
  A JavaScript number is a double: a finite value, one of the two infinities, or NaN.
  The exact result of an operation on finite operands is kept when the nearest double is
  finite, and becomes an infinity otherwise: it overflows exactly when its magnitude
  reaches \<open>2^1024 - 2^970\<close>, halfway between the largest double and \<open>2^1024\<close>. NaN
  comes from zero divided by zero, the square root of a negative number, the difference
  of two equal infinities and zero times an infinity. The rounding of a finite result to
  the nearest double and the sign of zero are outside the model. Timestamps are whole
  milliseconds in the range of \<open>Date\<close>; their differences and quotients are exact.
\<close>

datatype jsnum = Fin real | PInf | NInf | NaN

definition overflowAt :: real where
  "overflowAt = 2 ^ 1024 - 2 ^ 970"

definition js_round :: "real \<Rightarrow> jsnum" where
  "js_round x =
     (if overflowAt \<le> x then PInf else if x \<le> - overflowAt then NInf else Fin x)"

text \<open>A whole number read as a double: beyond the range it is an infinity.\<close>

definition numberOf :: "int \<Rightarrow> jsnum" where
  "numberOf n = js_round (real_of_int n)"

fun js_add :: "jsnum \<Rightarrow> jsnum \<Rightarrow> jsnum" where
  "js_add NaN y = NaN"
| "js_add x NaN = NaN"
| "js_add (Fin a) (Fin b) = js_round (a + b)"
| "js_add (Fin a) PInf = PInf"
| "js_add (Fin a) NInf = NInf"
| "js_add PInf NInf = NaN"
| "js_add PInf y = PInf"
| "js_add NInf PInf = NaN"
| "js_add NInf y = NInf"

fun js_sub :: "jsnum \<Rightarrow> jsnum \<Rightarrow> jsnum" where
  "js_sub NaN y = NaN"
| "js_sub x NaN = NaN"
| "js_sub (Fin a) (Fin b) = js_round (a - b)"
| "js_sub (Fin a) PInf = NInf"
| "js_sub (Fin a) NInf = PInf"
| "js_sub PInf PInf = NaN"
| "js_sub PInf y = PInf"
| "js_sub NInf NInf = NaN"
| "js_sub NInf y = NInf"

fun js_mul :: "jsnum \<Rightarrow> jsnum \<Rightarrow> jsnum" where
  "js_mul NaN y = NaN"
| "js_mul x NaN = NaN"
| "js_mul (Fin a) (Fin b) = js_round (a * b)"
| "js_mul (Fin a) PInf = (if a = 0 then NaN else if 0 < a then PInf else NInf)"
| "js_mul (Fin a) NInf = (if a = 0 then NaN else if 0 < a then NInf else PInf)"
| "js_mul PInf (Fin b) = (if b = 0 then NaN else if 0 < b then PInf else NInf)"
| "js_mul NInf (Fin b) = (if b = 0 then NaN else if 0 < b then NInf else PInf)"
| "js_mul PInf PInf = PInf"
| "js_mul PInf NInf = NInf"
| "js_mul NInf PInf = NInf"
| "js_mul NInf NInf = PInf"

text \<open>Division by a finite divisor.\<close>

fun js_div :: "jsnum \<Rightarrow> real \<Rightarrow> jsnum" where
  "js_div NaN b = NaN"
| "js_div (Fin a) b =
     (if b = 0 then (if a = 0 then NaN else if 0 < a then PInf else NInf)
      else js_round (a / b))"
| "js_div PInf b = (if b < 0 then NInf else PInf)"
| "js_div NInf b = (if b < 0 then PInf else NInf)"

fun js_sqrt :: "jsnum \<Rightarrow> jsnum" where
  "js_sqrt (Fin a) = (if a < 0 then NaN else Fin (sqrt a))"
| "js_sqrt PInf = PInf"
| "js_sqrt NInf = NaN"
| "js_sqrt NaN = NaN"

text \<open>The test \<open>v > 0\<close> that a sort applies to the value returned by its comparator.\<close>

fun js_positive :: "jsnum \<Rightarrow> bool" where
  "js_positive (Fin a) = (0 < a)"
| "js_positive PInf = True"
| "js_positive NInf = False"
| "js_positive NaN = False"

text \<open>The test \<open>v >= m\<close> against a finite number.\<close>

fun js_ge :: "jsnum \<Rightarrow> real \<Rightarrow> bool" where
  "js_ge (Fin a) m = (m \<le> a)"
| "js_ge PInf m = True"
| "js_ge NInf m = False"
| "js_ge NaN m = False"

text \<open>\<open>x || d\<close> on an optional number: an absent value and zero both give the default.\<close>

definition orDefault :: "real option \<Rightarrow> real \<Rightarrow> real" where
  "orDefault x d = (case x of None \<Rightarrow> d | Some v \<Rightarrow> if v = 0 then d else v)"

text \<open>\<open>x ?? d\<close>: only an absent value gives the default.\<close>

definition nullish :: "real option \<Rightarrow> real \<Rightarrow> real" where
  "nullish x d = (case x of None \<Rightarrow> d | Some v \<Rightarrow> v)"

section \<open>Trend scoring (utils/analytics.ts)\<close>

text \<open>
  The fields of a thread that \<open>detectTrendingThreads\<close> reads. \<open>createdDate\<close> holds
  \<open>new Date(t.createdDate).getTime()\<close>, the creation time in milliseconds.
\<close>

record ArenaThread =
  thread_id :: string
  createdDate :: int
  likeCount :: int
  repostCount :: int
  answerCount :: int
  bookmarkCount :: "int option"

text \<open>The options; a weight, when given, is a finite number.\<close>

record TrendingOptions =
  timeWindow :: "real option"
  minEngagement :: "real option"
  weightLikes :: "real option"
  weightReposts :: "real option"
  weightReplies :: "real option"
  weightBookmarks :: "real option"

text \<open>The call without options, or with an empty options object.\<close>

definition noOptions :: TrendingOptions where
  "noOptions = \<lparr> timeWindow = None, minEngagement = None, weightLikes = None,
     weightReposts = None, weightReplies = None, weightBookmarks = None \<rparr>"

record TrendingMetrics =
  totalEngagement :: jsnum
  engagementPerHour :: jsnum
  ageHours :: real

record TrendingThread =
  thread :: ArenaThread
  score :: jsnum
  velocityScore :: jsnum
  rank :: nat
  metrics :: TrendingMetrics

definition hourMs :: int where
  "hourMs = 60 * 60 * 1000"

text \<open>\<open>thread.bookmarkCount || 0\<close>\<close>

definition bookmarksOf :: "ArenaThread \<Rightarrow> int" where
  "bookmarksOf t = (case bookmarkCount t of None \<Rightarrow> 0 | Some b \<Rightarrow> b)"

text \<open>
  The first filter: the age in milliseconds is at most the time window. A window whose
  product with the milliseconds of an hour overflows is an infinity of the same sign,
  and compares with an age in the range of \<open>Date\<close> as the exact product does.
\<close>

definition withinWindow :: "int \<Rightarrow> TrendingOptions \<Rightarrow> ArenaThread \<Rightarrow> bool" where
  "withinWindow now opts t =
     (real_of_int (now - createdDate t)
        \<le> orDefault (timeWindow opts) 24 * 60 * 60 * 1000)"

text \<open>The callback of the first \<open>map\<close>: the score of one thread.\<close>

definition scoreThread :: "int \<Rightarrow> TrendingOptions \<Rightarrow> ArenaThread \<Rightarrow> TrendingThread" where
  "scoreThread now opts t =
     (let age = real_of_int (now - createdDate t) / (60 * 60 * 1000);
          ageHours = max age (1 / 10);
          totalEngagement =
            js_add
              (js_add
                (js_add
                  (js_mul (numberOf (likeCount t)) (Fin (nullish (weightLikes opts) 1)))
                  (js_mul (numberOf (repostCount t)) (Fin (nullish (weightReposts opts) 2))))
                (js_mul (numberOf (answerCount t)) (Fin (nullish (weightReplies opts) (3 / 2)))))
              (js_mul (numberOf (bookmarksOf t)) (Fin (nullish (weightBookmarks opts) 1)));
          engagementPerHour = js_div totalEngagement ageHours;
          velocityScore = engagementPerHour;
          score = js_mul velocityScore (js_sqrt totalEngagement)
      in \<lparr> thread = t, score = score, velocityScore = velocityScore, rank = 0,
           metrics = \<lparr> totalEngagement = totalEngagement,
                       engagementPerHour = engagementPerHour,
                       ageHours = ageHours \<rparr> \<rparr>)"

text \<open>The second filter: the raw, unweighted engagement reaches the floor.\<close>

definition enoughEngagement :: "TrendingOptions \<Rightarrow> ArenaThread \<Rightarrow> bool" where
  "enoughEngagement opts t =
     js_ge
       (js_add
         (js_add (js_add (numberOf (likeCount t)) (numberOf (repostCount t)))
            (numberOf (answerCount t)))
         (numberOf (bookmarksOf t)))
       (nullish (minEngagement opts) 3)"

text \<open>
  \<open>.sort((a, b) => b.score - a.score)\<close>. The sort takes a comparator value that is NaN
  for zero, and an element moves behind another exactly when the value is positive.
\<close>

definition compareScore :: "TrendingThread \<Rightarrow> TrendingThread \<Rightarrow> jsnum" where
  "compareScore a b = js_sub (score b) (score a)"

text \<open>
  The comparator is consistent on the array when no score is NaN, or when it is never
  positive (every pair ties). A NaN score ties with every other, so beside two scores
  that differ it breaks the transitivity of the ties.
\<close>

definition consistentComparator :: "TrendingThread list \<Rightarrow> bool" where
  "consistentComparator xs \<longleftrightarrow>
     list_all (\<lambda>r. score r \<noteq> NaN) xs \<or>
     list_all (\<lambda>a. list_all (\<lambda>b. \<not> js_positive (compareScore a b)) xs) xs"

fun insertByScore :: "TrendingThread \<Rightarrow> TrendingThread list \<Rightarrow> TrendingThread list" where
  "insertByScore x [] = [x]"
| "insertByScore x (y # ys) =
     (if js_positive (compareScore x y) then y # insertByScore x ys else x # y # ys)"

text \<open>
  The sort of an array is stable. With a consistent comparator its result is determined:
  the one the stable insertion sort gives. With a comparator that is not consistent the
  order is left to the implementation, and the model gives no array (\<open>None\<close>).
\<close>

definition sortByScore :: "TrendingThread list \<Rightarrow> TrendingThread list option" where
  "sortByScore xs =
     (if consistentComparator xs then Some (foldr insertByScore xs []) else None)"

text \<open>\<open>.map((t, index) => ({ ...t, rank: index + 1 }))\<close>\<close>

fun assignRanks :: "nat \<Rightarrow> TrendingThread list \<Rightarrow> TrendingThread list" where
  "assignRanks i [] = []"
| "assignRanks i (x # xs) = x\<lparr>rank := i + 1\<rparr> # assignRanks (i + 1) xs"

definition detectTrendingThreads ::
  "int \<Rightarrow> ArenaThread list \<Rightarrow> TrendingOptions \<Rightarrow> TrendingThread list option" where
  "detectTrendingThreads now threads opts =
     map_option (assignRanks 0)
       (sortByScore
         (filter (\<lambda>r. enoughEngagement opts (thread r))
           (map (scoreThread now opts)
             (filter (withinWindow now opts) threads))))"

section \<open>Engagement service (ArenaService)\<close>

subsection \<open>State\<close>

text \<open>
  One entry of \<open>engagementCounters\<close>, and the four hourly ceilings of the configuration.
  A ceiling is a whole number, as the counts it is compared with are; a fractional
  setting, which the parser of the configuration would let through, is outside the model.
\<close>

record counter =
  count :: int
  resetAt :: int

record engagementCounters =
  likes :: counter
  reposts :: counter
  replies :: counter
  follows :: counter

record ArenaConfig =
  maxLikesPerHour :: int
  maxRepostsPerHour :: int
  maxRepliesPerHour :: int
  maxFollowsPerHour :: int

text \<open>A value of the \<open>engagedThreads\<close> map.\<close>

record engagement =
  action :: string
  timestamp :: int
  author :: string

text \<open>
  \<open>engagedThreads\<close> is a JavaScript \<open>Map\<close>: an association list with distinct keys in
  insertion order, where \<open>set\<close> on a present key replaces the value in place
  (\<open>AList.update\<close>), \<open>get\<close> is \<open>map_of\<close>, \<open>delete\<close> is \<open>AList.delete\<close> and
  \<open>size\<close> is the length.
\<close>

type_synonym ledger = "(string \<times> engagement) list"

text \<open>The calls made to the platform client, each with whether it returned or threw.\<close>

datatype platformCall =
    LikeThread string
  | RepostThread string
  | ReplyToThread string string
  | FollowUserByHandle string
  | QuoteThread string string

text \<open>
  The mutable fields of the service that the engagement pass touches. \<open>platformLog\<close> is
  not a field of the class: it records, in order, the client calls the service has made.
\<close>

record ArenaService =
  counters :: engagementCounters
  engagedThreads :: ledger
  platformLog :: "(platformCall \<times> bool) list"

text \<open>The fields of a discovery candidate that decide what the pass does.\<close>

record candidate =
  candId :: string
  candAuthor :: string

text \<open>The decision returned by \<open>evaluateEngagementCandidate\<close>.\<close>

record decision =
  decAction :: string
  rationale :: string
  replyDraft :: "string option"

text \<open>
  What the environment does while one candidate is handled: the clock readings of
  \<open>exceededEngagementBudget\<close>, \<open>hasAlreadyEngaged\<close> and \<open>recordEngagement\<close>, the
  oracle's answer (\<open>None\<close> for \<open>null\<close>: every model failed or the output was
  malformed), and whether the platform call returns (\<open>False\<close>: it throws).
\<close>

record stepEnv =
  nowBudget :: int
  decided :: "decision option"
  nowCheck :: int
  clientOk :: bool
  nowRecord :: int

subsection \<open>Budget counters\<close>

datatype kind = Likes | Reposts | Replies | Follows

fun getCounter :: "kind \<Rightarrow> engagementCounters \<Rightarrow> counter" where
  "getCounter Likes cs = likes cs"
| "getCounter Reposts cs = reposts cs"
| "getCounter Replies cs = replies cs"
| "getCounter Follows cs = follows cs"

fun ceilingOf :: "ArenaConfig \<Rightarrow> kind \<Rightarrow> int" where
  "ceilingOf cfg Likes = maxLikesPerHour cfg"
| "ceilingOf cfg Reposts = maxRepostsPerHour cfg"
| "ceilingOf cfg Replies = maxRepliesPerHour cfg"
| "ceilingOf cfg Follows = maxFollowsPerHour cfg"

text \<open>\<open>this.engagementCounters.<kind>.count += 1\<close>\<close>

fun increment :: "kind \<Rightarrow> engagementCounters \<Rightarrow> engagementCounters" where
  "increment Likes cs = cs\<lparr>likes := (likes cs)\<lparr>count := count (likes cs) + 1\<rparr>\<rparr>"
| "increment Reposts cs = cs\<lparr>reposts := (reposts cs)\<lparr>count := count (reposts cs) + 1\<rparr>\<rparr>"
| "increment Replies cs = cs\<lparr>replies := (replies cs)\<lparr>count := count (replies cs) + 1\<rparr>\<rparr>"
| "increment Follows cs = cs\<lparr>follows := (follows cs)\<lparr>count := count (follows cs) + 1\<rparr>\<rparr>"

definition resetIfNeeded :: "int \<Rightarrow> counter \<Rightarrow> counter" where
  "resetIfNeeded now c =
     (if now > resetAt c then c\<lparr>count := 0, resetAt := now + hourMs\<rparr> else c)"

definition exceededEngagementBudget ::
  "ArenaConfig \<Rightarrow> int \<Rightarrow> ArenaService \<Rightarrow> bool \<times> ArenaService" where
  "exceededEngagementBudget cfg now s =
     (let cs = \<lparr> likes = resetIfNeeded now (likes (counters s)),
                  reposts = resetIfNeeded now (reposts (counters s)),
                  replies = resetIfNeeded now (replies (counters s)),
                  follows = resetIfNeeded now (follows (counters s)) \<rparr>
      in (count (likes cs) \<ge> maxLikesPerHour cfg \<and>
          count (reposts cs) \<ge> maxRepostsPerHour cfg \<and>
          count (replies cs) \<ge> maxRepliesPerHour cfg \<and>
          count (follows cs) \<ge> maxFollowsPerHour cfg,
          s\<lparr>counters := cs\<rparr>))"

subsection \<open>Dedup ledger\<close>

definition maxAge :: int where
  "maxAge = 48 * 60 * 60 * 1000"

definition engagementKey :: "string \<Rightarrow> string \<Rightarrow> string" where
  "engagementKey threadId act = threadId @ '':'' @ act"

text \<open>
  \<open>hasAlreadyEngaged\<close> answers and, when the stored record is older than 48 hours,
  deletes it.
\<close>

definition hasAlreadyEngaged ::
  "int \<Rightarrow> string \<Rightarrow> string \<Rightarrow> ArenaService \<Rightarrow> bool \<times> ArenaService" where
  "hasAlreadyEngaged now threadId act s =
     (let key = engagementKey threadId act in
      case map_of (engagedThreads s) key of
        None \<Rightarrow> (False, s)
      | Some e \<Rightarrow>
          if now - timestamp e > maxAge
          then (False, s\<lparr>engagedThreads := AList.delete key (engagedThreads s)\<rparr>)
          else (True, s))"

text \<open>
  \<open>recordEngagement\<close> stores the record under the key, whatever was there, and sweeps
  the records older than 48 hours once the map holds more than 1000. Its two clock
  readings belong to one synchronous step and are one value here.
\<close>

definition recordEngagement ::
  "int \<Rightarrow> string \<Rightarrow> string \<Rightarrow> string \<Rightarrow> ArenaService \<Rightarrow> ArenaService" where
  "recordEngagement now threadId act auth s =
     (let key = engagementKey threadId act;
          stored = AList.update key \<lparr> action = act, timestamp = now, author = auth \<rparr>
                     (engagedThreads s);
          swept = (if length stored > 1000
                   then filter (\<lambda>(k, v). \<not> (now - timestamp v > maxAge)) stored
                   else stored)
      in s\<lparr>engagedThreads := swept\<rparr>)"

subsection \<open>Executing a decision\<close>

text \<open>
  How \<open>executeEngagementDecision\<close> leaves: by one of its early returns, after the action
  was carried out, by the exception of the platform client (nothing in the function
  catches it), or through the \<open>none\<close>/\<open>default\<close> branch.
\<close>

datatype execResult =
  SkippedBudget | SkippedDuplicate | SkippedNoDraft | Executed | Threw | NoAction

text \<open>\<open>String.prototype.toLowerCase\<close> on ASCII letters.\<close>

definition toLowerCase :: "string \<Rightarrow> string" where
  "toLowerCase s =
     map (\<lambda>c. let n = (of_char c :: nat) in
               if 65 \<le> n \<and> n \<le> 90 then char_of (n + 32) else c) s"

text \<open>\<open>!decision.replyDraft\<close>: the draft is absent or the empty string.\<close>

definition draftText :: "decision \<Rightarrow> string" where
  "draftText d = (case replyDraft d of None \<Rightarrow> [] | Some t \<Rightarrow> t)"

text \<open>
  The five action cases of the \<open>switch\<close> follow one sequence, written once here: the
  budget gate of the kind, the dedup gate of the key, for reply and quote the draft gate,
  the awaited platform call, and only after it returned the increment of the counter
  and the record in the ledger. \<open>logEngagement\<close> catches its own failures and touches
  neither counters nor ledger; it is left out.
\<close>

definition engage ::
  "ArenaConfig \<Rightarrow> stepEnv \<Rightarrow> kind \<Rightarrow> string \<Rightarrow> string \<Rightarrow> string \<Rightarrow> bool \<Rightarrow> platformCall
     \<Rightarrow> ArenaService \<Rightarrow> execResult \<times> ArenaService" where
  "engage cfg env k target act auth draftMissing call s =
     (if count (getCounter k (counters s)) \<ge> ceilingOf cfg k then (SkippedBudget, s)
      else
        (case hasAlreadyEngaged (nowCheck env) target act s of
           (True, s1) \<Rightarrow> (SkippedDuplicate, s1)
         | (False, s1) \<Rightarrow>
             if draftMissing then (SkippedNoDraft, s1)
             else if \<not> clientOk env
             then (Threw, s1\<lparr>platformLog := platformLog s1 @ [(call, False)]\<rparr>)
             else
               (Executed,
                recordEngagement (nowRecord env) target act auth
                  (s1\<lparr>platformLog := platformLog s1 @ [(call, True)],
                      counters := increment k (counters s1)\<rparr>))))"

definition executeEngagementDecision ::
  "ArenaConfig \<Rightarrow> stepEnv \<Rightarrow> candidate \<Rightarrow> decision \<Rightarrow> ArenaService
     \<Rightarrow> execResult \<times> ArenaService" where
  "executeEngagementDecision cfg env c d s =
     (if decAction d = ''like'' then
        engage cfg env Likes (candId c) ''like'' (candAuthor c) False
          (LikeThread (candId c)) s
      else if decAction d = ''repost'' then
        engage cfg env Reposts (candId c) ''repost'' (candAuthor c) False
          (RepostThread (candId c)) s
      else if decAction d = ''reply'' then
        engage cfg env Replies (candId c) ''reply'' (candAuthor c) (draftText d = [])
          (ReplyToThread (candId c) (draftText d)) s
      else if decAction d = ''follow'' then
        engage cfg env Follows (''user:'' @ toLowerCase (candAuthor c)) ''follow''
          (candAuthor c) False (FollowUserByHandle (candAuthor c)) s
      else if decAction d = ''quote'' then
        engage cfg env Reposts (candId c) ''quote'' (candAuthor c) (draftText d = [])
          (QuoteThread (candId c) (draftText d)) s
      else (NoAction, s))"

subsection \<open>The engagement pass and its scheduler\<close>

datatype outcome = Completed | Failed

text \<open>
  The loop of \<open>runEngagementPass\<close> over the candidates of the snapshot it found, each
  paired with what the environment does meanwhile. The call of
  \<open>executeEngagementDecision\<close> is awaited outside any \<open>try\<close>: when it throws, the
  loop and the pass end with that exception.
\<close>

fun passLoop ::
  "ArenaConfig \<Rightarrow> (candidate \<times> stepEnv) list \<Rightarrow> ArenaService \<Rightarrow> outcome \<times> ArenaService" where
  "passLoop cfg [] s = (Completed, s)"
| "passLoop cfg ((c, env) # rest) s =
     (case exceededEngagementBudget cfg (nowBudget env) s of
        (True, s1) \<Rightarrow> (Completed, s1)
      | (False, s1) \<Rightarrow>
          (case decided env of
             None \<Rightarrow> passLoop cfg rest s1
           | Some d \<Rightarrow>
               if decAction d = ''none'' then passLoop cfg rest s1
               else
                 (case executeEngagementDecision cfg env c d s1 of
                    (Threw, s2) \<Rightarrow> (Failed, s2)
                  | (r, s2) \<Rightarrow> passLoop cfg rest s2)))"

text \<open>\<open>const candidates = snapshot.topThreads.slice(0, 5)\<close>\<close>

definition runEngagementPass ::
  "ArenaConfig \<Rightarrow> (candidate \<times> stepEnv) list \<Rightarrow> ArenaService \<Rightarrow> outcome \<times> ArenaService" where
  "runEngagementPass cfg topThreads s = passLoop cfg (take 5 topThreads) s"

text \<open>
  The timer callback of \<open>scheduleNextEngagement\<close> runs a pass, catches and logs its
  exception and schedules the next one: the passes of a process, one after the other.
\<close>

fun engagementPasses ::
  "ArenaConfig \<Rightarrow> (candidate \<times> stepEnv) list list \<Rightarrow> ArenaService \<Rightarrow> ArenaService" where
  "engagementPasses cfg [] s = s"
| "engagementPasses cfg (p # ps) s = engagementPasses cfg ps (snd (runEngagementPass cfg p s))"

text \<open>The service as constructed: counters at zero, an empty ledger, no call made.\<close>

definition newService :: ArenaService where
  "newService =
     \<lparr> counters = \<lparr> likes = \<lparr>count = 0, resetAt = 0\<rparr>, reposts = \<lparr>count = 0, resetAt = 0\<rparr>,
                    replies = \<lparr>count = 0, resetAt = 0\<rparr>, follows = \<lparr>count = 0, resetAt = 0\<rparr> \<rparr>,
       engagedThreads = [], platformLog = [] \<rparr>"

text \<open>The kind whose counter a platform call is charged to.\<close>

fun chargedTo :: "platformCall \<Rightarrow> kind" where
  "chargedTo (LikeThread t) = Likes"
| "chargedTo (RepostThread t) = Reposts"
| "chargedTo (QuoteThread t x) = Reposts"
| "chargedTo (ReplyToThread t x) = Replies"
| "chargedTo (FollowUserByHandle h) = Follows"

text \<open>The number of calls of a kind in a log that returned.\<close>

definition executedOf :: "kind \<Rightarrow> (platformCall \<times> bool) list \<Rightarrow> int" where
  "executedOf k calls = int (length (filter (\<lambda>(call, ok). ok \<and> chargedTo call = k) calls))"

section \<open>Mention monitor (services/mentionMonitor.ts)\<close>

text \<open>
  The in-memory caches of the monitor are two sets of its own. \<open>replyLog\<close> is not a
  field of the class: it records the calls of \<open>replyToThread\<close> the monitor has made,
  each with whether it returned.
\<close>

record MentionMonitor =
  processedMentions :: "string set"
  repliedThreads :: "string set"
  replyLog :: "(string \<times> string \<times> bool) list"

text \<open>
  What the environment does while one mention is processed: the thread identifier the
  link patterns extract (if any), whether \<open>getThread\<close> returns, the reply text that
  \<open>processAgentMention\<close> produces (if any), and whether \<open>replyToThread\<close> returns.
\<close>

record mentionEnv =
  linkThreadId :: "string option"
  threadFetched :: bool
  generatedReply :: "string option"
  replyOk :: bool

text \<open>
  \<open>markAsReplied\<close> adds the thread to the in-memory set; the copy it keeps in the
  runtime's memory store is outside the model.
\<close>

definition markAsReplied :: "string \<Rightarrow> MentionMonitor \<Rightarrow> MentionMonitor" where
  "markAsReplied threadId m = m\<lparr>repliedThreads := insert threadId (repliedThreads m)\<rparr>"

definition hasRepliedToThread :: "string \<Rightarrow> MentionMonitor \<Rightarrow> bool" where
  "hasRepliedToThread threadId m = (threadId \<in> repliedThreads m)"

text \<open>The body of the loop of \<open>processMentions\<close> for one mention.\<close>

definition processMention :: "string \<times> mentionEnv \<Rightarrow> MentionMonitor \<Rightarrow> MentionMonitor" where
  "processMention x m =
     (case x of (mentionId, env) \<Rightarrow>
        (case linkThreadId env of
           None \<Rightarrow> m
         | Some threadId \<Rightarrow>
             if hasRepliedToThread threadId m then m
             else if \<not> threadFetched env
             then m\<lparr>processedMentions := insert mentionId (processedMentions m)\<rparr>
             else
               (case generatedReply env of
                  None \<Rightarrow> m
                | Some replyText \<Rightarrow>
                    if replyText = [] then m
                    else if \<not> replyOk env
                    then m\<lparr>replyLog := replyLog m @ [(threadId, replyText, False)]\<rparr>
                    else markAsReplied threadId
                           (m\<lparr>replyLog := replyLog m @ [(threadId, replyText, True)]\<rparr>))))"

definition processMentions ::
  "(string \<times> mentionEnv) list \<Rightarrow> MentionMonitor \<Rightarrow> MentionMonitor" where
  "processMentions mentions m = fold processMention mentions m"

definition newMonitor :: MentionMonitor where
  "newMonitor = \<lparr> processedMentions = {}, repliedThreads = {}, replyLog = [] \<rparr>"

text \<open>
  The two services of one agent process: separate objects, each with its own state. A
  mention scan runs on the monitor, an engagement pass on the Arena service.
\<close>

record agentServices =
  arena :: ArenaService
  monitor :: MentionMonitor

definition mentionScan :: "(string \<times> mentionEnv) list \<Rightarrow> agentServices \<Rightarrow> agentServices" where
  "mentionScan mentions p = p\<lparr>monitor := processMentions mentions (monitor p)\<rparr>"

definition engagementPass ::
  "ArenaConfig \<Rightarrow> (candidate \<times> stepEnv) list \<Rightarrow> agentServices \<Rightarrow> agentServices" where
  "engagementPass cfg topThreads p =
     p\<lparr>arena := snd (runEngagementPass cfg topThreads (arena p))\<rparr>"

section \<open>Timers\<close>

subsection \<open>The chained timeouts of the Arena service\<close>

text \<open>
  \<open>scheduleNextPost\<close>, \<open>scheduleNextDiscovery\<close> and \<open>scheduleNextEngagement\<close> share one
  shape: unless the service is stopping (or the task is disabled) they arm one timeout,
  whose callback awaits the task body inside \<open>try\<close>/\<open>catch\<close> and calls the scheduling
  function again in \<open>finally\<close>. A task is the number of its armed timeouts and of the
  invocations of its body that have started and not yet settled.
\<close>

record chainedTask =
  stopping :: bool
  enabled :: bool
  armed :: nat
  inFlight :: nat

datatype timerEvent = Fires | Settles | Stops

definition scheduleNext :: "chainedTask \<Rightarrow> chainedTask" where
  "scheduleNext t = (if stopping t \<or> \<not> enabled t then t else t\<lparr>armed := armed t + 1\<rparr>)"

text \<open>
  A timeout fires and its callback starts the body; a running body settles, by
  returning or by throwing, and \<open>finally\<close> schedules the next timeout; \<open>stop\<close> sets
  the flag and clears the timeout whose handle the service holds.
\<close>

fun chainedStep :: "timerEvent \<Rightarrow> chainedTask \<Rightarrow> chainedTask" where
  "chainedStep Fires t =
     (if 0 < armed t then t\<lparr>armed := armed t - 1, inFlight := inFlight t + 1\<rparr> else t)"
| "chainedStep Settles t =
     (if 0 < inFlight t then scheduleNext (t\<lparr>inFlight := inFlight t - 1\<rparr>) else t)"
| "chainedStep Stops t = t\<lparr>stopping := True, armed := armed t - 1\<rparr>"

text \<open>The task after \<open>initialize\<close> has called its scheduling function once.\<close>

definition initialized :: chainedTask where
  "initialized = scheduleNext \<lparr> stopping = False, enabled = True, armed = 0, inFlight = 0 \<rparr>"

subsection \<open>The interval of the mention monitor\<close>

text \<open>
  \<open>startMonitoring\<close> arms one timeout for the first scan and one \<open>setInterval\<close> whose
  callback starts \<open>scanMentions\<close> at every tick without awaiting it.
\<close>

record intervalTask =
  isRunning :: bool
  firstScanArmed :: bool
  intervalArmed :: bool
  scansInFlight :: nat

datatype monitorEvent = FirstScanDue | IntervalTick | ScanSettles | StopMonitor

definition startMonitoring :: "intervalTask \<Rightarrow> intervalTask" where
  "startMonitoring t =
     (if isRunning t then t
      else t\<lparr>isRunning := True, firstScanArmed := True, intervalArmed := True\<rparr>)"

fun intervalStep :: "monitorEvent \<Rightarrow> intervalTask \<Rightarrow> intervalTask" where
  "intervalStep FirstScanDue t =
     (if firstScanArmed t
      then t\<lparr>firstScanArmed := False, scansInFlight := scansInFlight t + 1\<rparr> else t)"
| "intervalStep IntervalTick t =
     (if intervalArmed t then t\<lparr>scansInFlight := scansInFlight t + 1\<rparr> else t)"
| "intervalStep ScanSettles t =
     (if 0 < scansInFlight t then t\<lparr>scansInFlight := scansInFlight t - 1\<rparr> else t)"
| "intervalStep StopMonitor t = t\<lparr>intervalArmed := False, isRunning := False\<rparr>"

definition idleMonitor :: intervalTask where
  "idleMonitor = \<lparr> isRunning = False, firstScanArmed = False, intervalArmed = False,
                    scansInFlight = 0 \<rparr>"

section \<open>Notions used in the statements\<close>

text \<open>The kind of counter that gates an action of the decision, if it is an action.\<close>

definition kindOfAction :: "string \<Rightarrow> kind option" where
  "kindOfAction a =
     (if a = ''like'' then Some Likes
      else if a = ''repost'' then Some Reposts
      else if a = ''reply'' then Some Replies
      else if a = ''follow'' then Some Follows
      else if a = ''quote'' then Some Reposts
      else None)"

text \<open>The target under which a decision is looked up and recorded in the ledger.\<close>

definition dedupTarget :: "candidate \<Rightarrow> decision \<Rightarrow> string" where
  "dedupTarget c d =
     (if decAction d = ''follow'' then ''user:'' @ toLowerCase (candAuthor c) else candId c)"

text \<open>
  The count of a kind minus the calls of that kind that returned: what the counter held
  before any of the logged calls, as long as it is not reset.
\<close>

definition balance :: "kind \<Rightarrow> ArenaService \<Rightarrow> int" where
  "balance k s = count (getCounter k (counters s)) - executedOf k (platformLog s)"

text \<open>
  What holds between two states of the service with no reset of the kind in between:
  same balance, same window end, and a count within the ceiling stays within it.
\<close>

definition steady :: "ArenaConfig \<Rightarrow> kind \<Rightarrow> ArenaService \<Rightarrow> ArenaService \<Rightarrow> bool" where
  "steady cfg k s s' \<longleftrightarrow>
     balance k s' = balance k s \<and>
     resetAt (getCounter k (counters s')) = resetAt (getCounter k (counters s)) \<and>
     (count (getCounter k (counters s)) \<le> ceilingOf cfg k \<longrightarrow>
      count (getCounter k (counters s')) \<le> ceilingOf cfg k)"

section \<open>Concrete inputs\<close>

definition scenarioA :: "int \<Rightarrow> ArenaThread" where
  "scenarioA now = \<lparr> thread_id = ''a'', createdDate = now - 2 * hourMs, likeCount = 10,
     repostCount = 5, answerCount = 2, bookmarkCount = Some 0 \<rparr>"

text \<open>Two threads of score 8 at hour 10: the older one first in the feed.\<close>

definition older :: ArenaThread where
  "older = \<lparr> thread_id = ''older'', createdDate = 2 * hourMs, likeCount = 16,
     repostCount = 0, answerCount = 0, bookmarkCount = None \<rparr>"

definition fresher :: ArenaThread where
  "fresher = \<lparr> thread_id = ''fresher'', createdDate = 9 * hourMs, likeCount = 4,
     repostCount = 0, answerCount = 0, bookmarkCount = None \<rparr>"

definition olderFirst :: "ArenaThread list" where
  "olderFirst = [older, fresher]"

text \<open>A thread created at this very millisecond whose like counter is the double 2^1023.\<close>

definition hugeLikes :: "int \<Rightarrow> ArenaThread" where
  "hugeLikes now = \<lparr> thread_id = ''huge'', createdDate = now, likeCount = 2 ^ 1023,
     repostCount = 0, answerCount = 0, bookmarkCount = None \<rparr>"

definition defaultCeilings :: ArenaConfig where
  "defaultCeilings = \<lparr> maxLikesPerHour = 10, maxRepostsPerHour = 4, maxRepliesPerHour = 3,
                        maxFollowsPerHour = 2 \<rparr>"

definition candidateOf :: "string \<Rightarrow> candidate" where
  "candidateOf i = \<lparr> candId = i, candAuthor = ''Alice'' \<rparr>"

definition decide :: "string \<Rightarrow> decision" where
  "decide a = \<lparr> decAction = a, rationale = ''signal'', replyDraft = Some ''gm'' \<rparr>"

text \<open>One clock reading for the whole step, the oracle's decision and the client's fate.\<close>

definition stepAt :: "int \<Rightarrow> string \<Rightarrow> bool \<Rightarrow> stepEnv" where
  "stepAt now a ok = \<lparr> nowBudget = now, decided = Some (decide a), nowCheck = now,
                        clientOk = ok, nowRecord = now \<rparr>"

definition mentionOf :: "string \<Rightarrow> string \<Rightarrow> string \<times> mentionEnv" where
  "mentionOf mentionId threadId =
     (mentionId, \<lparr> linkThreadId = Some threadId, threadFetched = True,
                   generatedReply = Some ''thanks'', replyOk = True \<rparr>)"

definition twoLikes :: ArenaConfig where
  "twoLikes = \<lparr> maxLikesPerHour = 2, maxRepostsPerHour = 4, maxRepliesPerHour = 3,
                 maxFollowsPerHour = 2 \<rparr>"

text \<open>The new service after a first budget check at millisecond 1: all windows open.\<close>

definition windowOpen :: ArenaService where
  "windowOpen = snd (exceededEngagementBudget twoLikes 1 newService)"

definition threeLikes :: "(candidate \<times> stepEnv) list" where
  "threeLikes = [(candidateOf ''t1'', stepAt 1000 ''like'' True),
                 (candidateOf ''t2'', stepAt 2000 ''like'' True),
                 (candidateOf ''t3'', stepAt 3000 ''like'' True)]"

text \<open>The service after that pass: the two likes of the hour are spent.\<close>

definition exhausted :: ArenaService where
  "exhausted = engagementPasses twoLikes [threeLikes] windowOpen"


text \<open>Two candidates to like; the platform call for the first one throws.\<close>

definition failThenLike :: "(candidate \<times> stepEnv) list" where
  "failThenLike = [(candidateOf ''t1'', stepAt 1000 ''like'' False),
                   (candidateOf ''t2'', stepAt 2000 ''like'' True)]"

definition freshServices :: agentServices where
  "freshServices = \<lparr> arena = newService, monitor = newMonitor \<rparr>"

text \<open>A pass in which the engagement engine replies to thread t1.\<close>

definition replyPass :: "(candidate \<times> stepEnv) list" where
  "replyPass = [(candidateOf ''t1'', stepAt 1000 ''reply'' True)]"

text \<open>A service whose ledger holds one follow of Alice, recorded at millisecond 0.\<close>

definition staleFollow :: ArenaService where
  "staleFollow =
     newService\<lparr>engagedThreads :=
       [(''user:alice:follow'', \<lparr> action = ''follow'', timestamp = 0, author = ''Alice'' \<rparr>)]\<rparr>"

text \<open>A follow decided one millisecond after those 48 hours, with a client that throws.\<close>

definition followFails :: stepEnv where
  "followFails = stepAt (maxAge + 1) ''follow'' False"

section \<open>Numbers: results\<close>

lemma overflowAt_lower: "2 ^ 1023 \<le> overflowAt"
  by (simp add: overflowAt_def)

lemma overflowAt_pos: "0 < overflowAt"
  by (simp add: overflowAt_def)

lemma js_round_Fin:
  assumes "- (2 ^ 1023) < x" "x < 2 ^ 1023"
  shows "js_round x = Fin x"
  using assms overflowAt_lower by (simp add: js_round_def)

text \<open>Numbers of at most nine digits, as the concrete inputs below have them.\<close>

lemma js_round_small:
  assumes "- 1000000000 \<le> x" "x \<le> 1000000000"
  shows "js_round x = Fin x"
proof -
  have "(1000000000::real) < 2 ^ 1023" by simp
  then show ?thesis
    using assms by (intro js_round_Fin) linarith+
qed

lemma numberOf_small:
  assumes "- 1000000000 \<le> n" "n \<le> 1000000000"
  shows "numberOf n = Fin (real_of_int n)"
  unfolding numberOf_def using assms by (intro js_round_small) simp_all

lemma js_positive_round: "js_positive (js_round d) \<longleftrightarrow> 0 < d"
  using overflowAt_pos by (auto simp: js_round_def)

section \<open>Trend scoring: results\<close>

subsection \<open>Scenario A\<close>

lemma sqrt23_bounds: "47957 / 10000 < sqrt 23" "sqrt 23 < 47959 / 10000"
  by (rule real_less_rsqrt, simp add: power2_eq_square)
     (rule real_less_lsqrt, simp_all add: power2_eq_square)

lemma sqrt23_small: "23 / 2 * sqrt 23 \<le> 1000000000" "- 1000000000 \<le> 23 / 2 * sqrt 23"
  using sqrt23_bounds by simp_all

lemma scenarioA_thread:
  "scoreThread now noOptions (scenarioA now) =
     \<lparr> thread = scenarioA now, score = Fin (23 / 2 * sqrt 23), velocityScore = Fin (23 / 2),
       rank = 0,
       metrics = \<lparr> totalEngagement = Fin 23, engagementPerHour = Fin (23 / 2),
                   ageHours = 2 \<rparr> \<rparr>"
  using sqrt23_small
  by (simp add: scenarioA_def noOptions_def scoreThread_def hourMs_def nullish_def
      bookmarksOf_def numberOf_small js_round_small Let_def)

lemma scenarioA_scored:
  "detectTrendingThreads now [scenarioA now] noOptions =
     Some [\<lparr> thread = scenarioA now, score = Fin (23 / 2 * sqrt 23),
             velocityScore = Fin (23 / 2), rank = 1,
             metrics = \<lparr> totalEngagement = Fin 23, engagementPerHour = Fin (23 / 2),
                         ageHours = 2 \<rparr> \<rparr>]"
proof -
  have w: "withinWindow now noOptions (scenarioA now)"
    by (simp add: withinWindow_def scenarioA_def noOptions_def orDefault_def hourMs_def)
  have e: "enoughEngagement noOptions (scenarioA now)"
    by (simp add: enoughEngagement_def scenarioA_def noOptions_def nullish_def bookmarksOf_def
        numberOf_small js_round_small)
  have t: "thread (scoreThread now noOptions (scenarioA now)) = scenarioA now"
    by (simp add: scenarioA_thread)
  show ?thesis
    using w e t
    by (simp add: detectTrendingThreads_def sortByScore_def consistentComparator_def
        scenarioA_thread)
qed

text \<open>
  C1, as stated, fails: for the item of scenario A (10 likes, 5 reposts, 2 replies, no
  bookmark, created exactly two hours before now, default weights) the velocity that the
  scorer computes is not 13.
\<close>

theorem scenarioA_velocity_not_13:
  "map_option (map velocityScore)
     (detectTrendingThreads (10 * hourMs) [scenarioA (10 * hourMs)] noOptions)
     \<noteq> Some [Fin 13]"
  by (simp add: scenarioA_scored)

text \<open>
  C1, amended: for that item, at any time now, the scorer returns one entry of rank 1 whose
  weighted engagement is 23, whose velocity (engagement per hour) is 23 / 2 = 11.5 and
  whose score is 11.5 times the square root of 23, a number between 55.15 and 55.16.
\<close>

theorem scenarioA_velocity_and_score:
  "map_option
     (map (\<lambda>r. (totalEngagement (metrics r), engagementPerHour (metrics r), velocityScore r,
                score r, rank r)))
     (detectTrendingThreads now [scenarioA now] noOptions) =
     Some [(Fin 23, Fin (23 / 2), Fin (23 / 2), Fin (23 / 2 * sqrt 23), 1)] \<and>
   5515 / 100 < 23 / 2 * sqrt 23 \<and> 23 / 2 * sqrt 23 < 5516 / 100"
  using sqrt23_bounds by (simp add: scenarioA_scored)

subsection \<open>Ranking\<close>

lemma set_insertByScore: "set (insertByScore x ys) = insert x (set ys)"
  by (induction ys) auto

lemma set_insertion_sort: "set (foldr insertByScore xs []) = set xs"
  by (induction xs) (simp_all add: set_insertByScore)

lemma js_sub_self_not_positive: "\<not> js_positive (js_sub a a)"
  by (cases a) (simp_all add: js_positive_round)

lemma js_sub_asym: "js_positive (js_sub b a) \<Longrightarrow> \<not> js_positive (js_sub a b)"
  by (cases a; cases b) (simp_all add: js_positive_round)

lemma js_sub_trans:
  assumes "a \<noteq> NaN" "b \<noteq> NaN" "c \<noteq> NaN"
    and "\<not> js_positive (js_sub b a)" "\<not> js_positive (js_sub c b)"
  shows "\<not> js_positive (js_sub c a)"
  using assms by (cases a; cases b; cases c) (simp_all add: js_positive_round)

lemma filter_insertByScore:
  "filter (\<lambda>r. score r = v) (insertByScore x ys) =
     (if score x = v then x # filter (\<lambda>r. score r = v) ys
      else filter (\<lambda>r. score r = v) ys)"
proof (induction ys)
  case Nil
  then show ?case by simp
next
  case (Cons y ys)
  show ?case
  proof (cases "js_positive (compareScore x y)")
    case True
    then have "score y \<noteq> score x"
      using js_sub_self_not_positive [of "score x"] by (auto simp: compareScore_def)
    with True Cons show ?thesis by auto
  next
    case False
    then show ?thesis by simp
  qed
qed

lemma filter_insertion_sort:
  "filter (\<lambda>r. score r = v) (foldr insertByScore xs []) = filter (\<lambda>r. score r = v) xs"
  by (induction xs) (simp_all add: filter_insertByScore)

lemma sorted_insertByScore:
  assumes "\<forall>r \<in> set (x # ys). score r \<noteq> NaN"
    and "sorted_wrt (\<lambda>a b. \<not> js_positive (compareScore a b)) ys"
  shows "sorted_wrt (\<lambda>a b. \<not> js_positive (compareScore a b)) (insertByScore x ys)"
  using assms
proof (induction ys)
  case Nil
  then show ?case by simp
next
  case (Cons y ys)
  have fin: "\<forall>r \<in> set (x # ys). score r \<noteq> NaN"
    using Cons.prems(1) by simp
  show ?case
  proof (cases "js_positive (compareScore x y)")
    case True
    have ih: "sorted_wrt (\<lambda>a b. \<not> js_positive (compareScore a b)) (insertByScore x ys)"
      using Cons.IH [OF fin] Cons.prems(2) by simp
    have "\<not> js_positive (compareScore y z)" if "z \<in> set (insertByScore x ys)" for z
    proof -
      from that have "z = x \<or> z \<in> set ys" by (simp add: set_insertByScore)
      then show ?thesis
      proof
        assume "z = x"
        then show ?thesis
          using True js_sub_asym [of "score y" "score x"] by (simp add: compareScore_def)
      next
        assume "z \<in> set ys"
        then show ?thesis using Cons.prems(2) by simp
      qed
    qed
    with ih True show ?thesis by simp
  next
    case False
    have "\<not> js_positive (compareScore x z)" if "z \<in> set ys" for z
    proof -
      have n: "score x \<noteq> NaN" "score y \<noteq> NaN" "score z \<noteq> NaN"
        using Cons.prems(1) that by simp_all
      have "\<not> js_positive (js_sub (score z) (score y))"
        using Cons.prems(2) that by (simp add: compareScore_def)
      moreover have "\<not> js_positive (js_sub (score y) (score x))"
        using False by (simp add: compareScore_def)
      ultimately show ?thesis
        using js_sub_trans [OF n] by (simp add: compareScore_def)
    qed
    with False Cons.prems(2) show ?thesis by auto
  qed
qed

lemma insertion_sort_descending:
  assumes "\<forall>r \<in> set xs. score r \<noteq> NaN"
  shows "sorted_wrt (\<lambda>a b. \<not> js_positive (compareScore a b)) (foldr insertByScore xs [])"
  using assms
proof (induction xs)
  case Nil
  then show ?case by simp
next
  case (Cons x xs)
  have f: "\<forall>r \<in> set xs. score r \<noteq> NaN" using Cons.prems by simp
  have "\<forall>r \<in> set (x # foldr insertByScore xs []). score r \<noteq> NaN"
    using Cons.prems by (simp add: set_insertion_sort)
  from sorted_insertByScore [OF this Cons.IH [OF f]] show ?case
    by simp
qed

lemma sorted_wrt_all_pairs:
  assumes "\<forall>a \<in> set ys. \<forall>b \<in> set ys. R a b"
  shows "sorted_wrt R ys"
  using assms by (induction ys) auto

text \<open>
  Whenever the comparator is consistent, the sorted array is in descending order of
  score: no entry is followed by one that the comparator puts before it.
\<close>

lemma sortByScore_descending:
  assumes "sortByScore xs = Some ys"
  shows "sorted_wrt (\<lambda>a b. \<not> js_positive (compareScore a b)) ys"
proof -
  have c: "consistentComparator xs" and ys: "ys = foldr insertByScore xs []"
    using assms by (auto simp: sortByScore_def split: if_splits)
  from c consider "\<forall>r \<in> set xs. score r \<noteq> NaN"
    | "\<forall>a \<in> set xs. \<forall>b \<in> set xs. \<not> js_positive (compareScore a b)"
    by (auto simp: consistentComparator_def list_all_iff)
  then show ?thesis
  proof cases
    case 1
    then show ?thesis unfolding ys by (rule insertion_sort_descending)
  next
    case 2
    then show ?thesis
      unfolding ys by (intro sorted_wrt_all_pairs) (simp add: set_insertion_sort)
  qed
qed

lemma sortByScore_filter:
  assumes "sortByScore xs = Some ys"
  shows "filter (\<lambda>r. score r = v) ys = filter (\<lambda>r. score r = v) xs"
  using assms by (auto simp: sortByScore_def filter_insertion_sort split: if_splits)

lemma sortByScore_set:
  assumes "sortByScore xs = Some ys"
  shows "set ys = set xs"
  using assms by (auto simp: sortByScore_def set_insertion_sort split: if_splits)

lemma map_score_assignRanks: "map score (assignRanks i xs) = map score xs"
  by (induction xs arbitrary: i) simp_all

lemma map_thread_assignRanks:
  "map thread (filter (\<lambda>r. score r = v) (assignRanks i xs)) =
   map thread (filter (\<lambda>r. score r = v) xs)"
  by (induction xs arbitrary: i) simp_all

lemma thread_scoreThread: "thread (scoreThread now opts t) = t"
  by (simp add: scoreThread_def Let_def)

lemma map_thread_scored:
  "map thread (filter P (map (scoreThread now opts) ts)) =
     filter (\<lambda>t. P (scoreThread now opts t)) ts"
  by (induction ts) (simp_all add: thread_scoreThread)

lemma sqrt16: "sqrt 16 = 4"
  using real_sqrt_abs [of 4] by simp

lemma older_scored:
  "score (scoreThread (10 * hourMs) noOptions older) = Fin 8"
  "score (scoreThread (10 * hourMs) noOptions fresher) = Fin 8"
  by (simp_all add: older_def fresher_def noOptions_def scoreThread_def hourMs_def nullish_def
      bookmarksOf_def numberOf_small js_round_small Let_def sqrt16)

lemma older_passes:
  "withinWindow (10 * hourMs) noOptions older" "withinWindow (10 * hourMs) noOptions fresher"
  "enoughEngagement noOptions older" "enoughEngagement noOptions fresher"
  by (simp_all add: withinWindow_def enoughEngagement_def older_def fresher_def noOptions_def
      orDefault_def nullish_def hourMs_def bookmarksOf_def numberOf_small js_round_small)

lemma olderFirst_ranking:
  "detectTrendingThreads (10 * hourMs) olderFirst noOptions =
     Some [(scoreThread (10 * hourMs) noOptions older)\<lparr>rank := 1\<rparr>,
           (scoreThread (10 * hourMs) noOptions fresher)\<lparr>rank := 2\<rparr>]"
  using older_passes older_scored
  by (simp add: detectTrendingThreads_def olderFirst_def sortByScore_def
      consistentComparator_def thread_scoreThread compareScore_def js_round_small)

text \<open>
  C3, as stated, fails: of two items with the same score 8, the one created at hour 2
  and the one created at hour 9, the ranking at hour 10 puts the older one first when the
  feed lists it first.
\<close>

theorem tie_ranks_older_item_first:
  "map createdDate olderFirst = [2 * hourMs, 9 * hourMs] \<and>
   map_option (map score) (detectTrendingThreads (10 * hourMs) olderFirst noOptions) =
     Some [Fin 8, Fin 8] \<and>
   map_option (map thread) (detectTrendingThreads (10 * hourMs) olderFirst noOptions) =
     Some olderFirst"
  by (simp add: olderFirst_ranking older_scored thread_scoreThread)
     (simp add: olderFirst_def older_def fresher_def)

text \<open>
  C3, amended: whenever the comparator \<open>b.score - a.score\<close> is consistent on the scored
  items (no score is NaN, or all tie), so that the sort has one result: the ranking is in
  descending order of score, no score being followed by a higher one, and it has no
  tie-break on the creation time. The items of any one score appear in the ranking in
  the order in which the input lists them (those that pass the two filters), whatever
  their creation times.
\<close>

theorem ranking_descending_ties_in_input_order:
  assumes "detectTrendingThreads now threads opts = Some ranked"
  shows "sorted_wrt (\<lambda>s t. \<not> js_positive (js_sub t s)) (map score ranked) \<and>
         map thread (filter (\<lambda>r. score r = v) ranked) =
           filter (\<lambda>t. withinWindow now opts t \<and> enoughEngagement opts t \<and>
                       score (scoreThread now opts t) = v) threads"
proof -
  let ?scored = "filter (\<lambda>r. enoughEngagement opts (thread r))
                   (map (scoreThread now opts) (filter (withinWindow now opts) threads))"
  obtain ys where ys: "sortByScore ?scored = Some ys" and r: "ranked = assignRanks 0 ys"
    using assms by (auto simp: detectTrendingThreads_def)
  have "sorted_wrt (\<lambda>a b. \<not> js_positive (compareScore a b)) ys"
    using ys by (rule sortByScore_descending)
  then have "sorted_wrt (\<lambda>s t. \<not> js_positive (js_sub t s)) (map score ys)"
    by (simp add: sorted_wrt_map compareScore_def)
  then have d: "sorted_wrt (\<lambda>s t. \<not> js_positive (js_sub t s)) (map score ranked)"
    by (simp add: r map_score_assignRanks)
  have "map thread (filter (\<lambda>r. score r = v) ranked) =
        map thread (filter (\<lambda>r. score r = v) ?scored)"
    by (simp add: r map_thread_assignRanks sortByScore_filter [OF ys])
  also have "\<dots> = filter (\<lambda>t. enoughEngagement opts t \<and> score (scoreThread now opts t) = v)
                     (filter (withinWindow now opts) threads)"
    by (simp add: map_thread_scored thread_scoreThread conj_commute)
  also have "\<dots> = filter (\<lambda>t. withinWindow now opts t \<and> enoughEngagement opts t \<and>
                 score (scoreThread now opts t) = v) threads"
    by (simp add: conj_commute conj_left_commute)
  finally show ?thesis using d by simp
qed

theorem ranking_descending_ties_in_input_order_witness:
  "map_option (map score) (detectTrendingThreads (10 * hourMs) olderFirst noOptions) =
     Some [Fin 8, Fin 8] \<and>
   sorted_wrt (\<lambda>s t. \<not> js_positive (js_sub t s)) [Fin 8, Fin 8] \<and>
   map_option (map thread \<circ> filter (\<lambda>r. score r = Fin 8))
     (detectTrendingThreads (10 * hourMs) olderFirst noOptions) = Some olderFirst"
proof -
  let ?ranked = "[(scoreThread (10 * hourMs) noOptions older)\<lparr>rank := 1\<rparr>,
                  (scoreThread (10 * hourMs) noOptions fresher)\<lparr>rank := 2\<rparr>]"
  have f: "filter (\<lambda>t. withinWindow (10 * hourMs) noOptions t \<and> enoughEngagement noOptions t \<and>
                 score (scoreThread (10 * hourMs) noOptions t) = Fin 8) olderFirst = olderFirst"
    using older_passes older_scored by (simp add: olderFirst_def)
  have s: "map score ?ranked = [Fin 8, Fin 8]"
    by (simp add: older_scored)
  show ?thesis
    using ranking_descending_ties_in_input_order [OF olderFirst_ranking, of "Fin 8"] f s
    by (simp add: olderFirst_ranking)
qed

subsection \<open>Finite scores\<close>

text \<open>
  An item created at this very millisecond has the age 0, clamped to a tenth of an hour.
  The quotient by the unclamped age would be an infinity, or NaN for an item without
  engagement.
\<close>

lemma just_created_age_is_clamped:
  "ageHours (metrics (scoreThread now opts (t\<lparr>createdDate := now\<rparr>))) = 1 / 10"
  by (simp add: scoreThread_def Let_def)

lemma division_by_zero_age: "js_div (Fin 23) 0 = PInf" "js_div (Fin 0) 0 = NaN"
  by simp_all

text \<open>
  C8, as stated, fails: an item created at this very millisecond with \<open>2^1023\<close> likes (a
  whole number that is a double) and no other engagement, under the default weights. Its
  counters are not negative and its creation time is at most now, and its score is
  Infinity: the weighted total \<open>2^1023\<close> is finite, but its quotient by the clamped age
  of 0.1 hours is beyond the largest double.
\<close>

theorem huge_counter_scores_infinity:
  "0 \<le> likeCount (hugeLikes (10 * hourMs)) \<and>
   createdDate (hugeLikes (10 * hourMs)) \<le> 10 * hourMs \<and>
   totalEngagement (metrics (scoreThread (10 * hourMs) noOptions (hugeLikes (10 * hourMs))))
     = Fin (2 ^ 1023) \<and>
   map_option (map score)
     (detectTrendingThreads (10 * hourMs) [hugeLikes (10 * hourMs)] noOptions) = Some [PInf]"
proof -
  have r: "js_round (2 ^ 1023) = Fin (2 ^ 1023)" "js_round 0 = Fin 0"
    "js_round (10 * 2 ^ 1023) = PInf"
    by (simp_all add: js_round_def overflowAt_def)
  have n: "numberOf (2 ^ 1023) = Fin (2 ^ 1023)" "numberOf 0 = Fin 0"
    using r by (simp_all add: numberOf_def)
  have s: "scoreThread (10 * hourMs) noOptions (hugeLikes (10 * hourMs)) =
     \<lparr> thread = hugeLikes (10 * hourMs), score = PInf, velocityScore = PInf, rank = 0,
       metrics = \<lparr> totalEngagement = Fin (2 ^ 1023), engagementPerHour = PInf,
                   ageHours = 1 / 10 \<rparr> \<rparr>"
    using r n
    by (simp add: scoreThread_def hugeLikes_def noOptions_def nullish_def bookmarksOf_def
        Let_def)
  have w: "withinWindow (10 * hourMs) noOptions (hugeLikes (10 * hourMs))"
    by (simp add: withinWindow_def hugeLikes_def noOptions_def orDefault_def)
  have e: "enoughEngagement noOptions (hugeLikes (10 * hourMs))"
    using r n
    by (simp add: enoughEngagement_def hugeLikes_def noOptions_def nullish_def bookmarksOf_def)
  show ?thesis
    using w e s
    by (simp add: detectTrendingThreads_def sortByScore_def consistentComparator_def)
       (simp add: hugeLikes_def hourMs_def)
qed

lemma product_in_range:
  assumes "0 \<le> c" "c \<le> 2 ^ 53" "0 \<le> w" "w \<le> 2 ^ 53"
  shows "js_mul (numberOf c) (Fin w) = Fin (real_of_int c * w)"
    and "0 \<le> real_of_int c * w" and "real_of_int c * w \<le> 2 ^ 106"
proof -
  have c: "0 \<le> real_of_int c" "real_of_int c \<le> 2 ^ 53"
    using assms(1,2) by simp_all
  have n: "numberOf c = Fin (real_of_int c)"
    unfolding numberOf_def using c by (intro js_round_Fin) simp_all
  show p0: "0 \<le> real_of_int c * w"
    using c assms(3) by simp
  have "real_of_int c * w \<le> 2 ^ 53 * 2 ^ 53"
    using c assms(3,4) by (intro mult_mono) simp_all
  then show p1: "real_of_int c * w \<le> 2 ^ 106"
    by simp
  have "js_round (real_of_int c * w) = Fin (real_of_int c * w)"
    using p0 p1 by (intro js_round_Fin) simp_all
  then show "js_mul (numberOf c) (Fin w) = Fin (real_of_int c * w)"
    using n by simp
qed

lemma sum_in_range:
  assumes "0 \<le> a" "a \<le> 2 ^ 108" "0 \<le> b" "b \<le> 2 ^ 108"
  shows "js_add (Fin a) (Fin b) = Fin (a + b)"
proof -
  have "js_round (a + b) = Fin (a + b)"
    using assms by (intro js_round_Fin) simp_all
  then show ?thesis by simp
qed

lemma scoreThread_finite:
  assumes "0 \<le> nullish (weightLikes opts) 1" "nullish (weightLikes opts) 1 \<le> 2 ^ 53"
    "0 \<le> nullish (weightReposts opts) 2" "nullish (weightReposts opts) 2 \<le> 2 ^ 53"
    "0 \<le> nullish (weightReplies opts) (3 / 2)" "nullish (weightReplies opts) (3 / 2) \<le> 2 ^ 53"
    "0 \<le> nullish (weightBookmarks opts) 1" "nullish (weightBookmarks opts) 1 \<le> 2 ^ 53"
    "0 \<le> likeCount t" "likeCount t \<le> 2 ^ 53" "0 \<le> repostCount t" "repostCount t \<le> 2 ^ 53"
    "0 \<le> answerCount t" "answerCount t \<le> 2 ^ 53" "0 \<le> bookmarksOf t" "bookmarksOf t \<le> 2 ^ 53"
  shows "\<exists>x. score (scoreThread now opts t) = Fin x \<and> 0 \<le> x"
proof -
  define p1 where "p1 = real_of_int (likeCount t) * nullish (weightLikes opts) 1"
  define p2 where "p2 = real_of_int (repostCount t) * nullish (weightReposts opts) 2"
  define p3 where "p3 = real_of_int (answerCount t) * nullish (weightReplies opts) (3 / 2)"
  define p4 where "p4 = real_of_int (bookmarksOf t) * nullish (weightBookmarks opts) 1"
  define total where "total = p1 + p2 + p3 + p4"
  define hours where
    "hours = max (real_of_int (now - createdDate t) / (60 * 60 * 1000)) (1 / 10)"
  note a = product_in_range [OF assms(9,10,1,2), folded p1_def]
  note b = product_in_range [OF assms(11,12,3,4), folded p2_def]
  note c = product_in_range [OF assms(13,14,5,6), folded p3_def]
  note d = product_in_range [OF assms(15,16,7,8), folded p4_def]
  have s2: "js_add (Fin p1) (Fin p2) = Fin (p1 + p2)"
    using a b by (intro sum_in_range) simp_all
  have s3: "js_add (Fin (p1 + p2)) (Fin p3) = Fin (p1 + p2 + p3)"
    using a b c by (intro sum_in_range) simp_all
  have s4: "js_add (Fin (p1 + p2 + p3)) (Fin p4) = Fin total"
    unfolding total_def using a b c d by (intro sum_in_range) simp_all
  have t0: "0 \<le> total" and t1: "total \<le> 2 ^ 108"
    unfolding total_def using a b c d by simp_all
  have h: "1 / 10 \<le> hours"
    unfolding hours_def by simp
  then have h0: "0 < hours" by simp
  have q0: "0 \<le> total / hours"
    using t0 h0 by simp
  have "total / hours \<le> total / (1 / 10)"
    using t0 h by (intro divide_left_mono) simp_all
  then have q1: "total / hours \<le> 2 ^ 112"
    using t1 by simp
  have dv: "js_div (Fin total) hours = Fin (total / hours)"
    using h0 q0 q1 by (simp add: js_round_Fin)
  have r0: "0 \<le> sqrt total"
    using t0 by simp
  have r1: "sqrt total \<le> 2 ^ 54"
    using t1 by (intro real_le_lsqrt) simp_all
  have m0: "0 \<le> total / hours * sqrt total"
    using q0 r0 by (rule mult_nonneg_nonneg)
  have "total / hours * sqrt total \<le> 2 ^ 112 * 2 ^ 54"
    using q0 q1 r0 r1 by (intro mult_mono) simp_all
  then have m1: "total / hours * sqrt total \<le> 2 ^ 166"
    by simp
  have ml: "js_mul (Fin (total / hours)) (Fin (sqrt total)) = Fin (total / hours * sqrt total)"
    using m0 m1 by (simp add: js_round_Fin)
  have "score (scoreThread now opts t) =
          js_mul (js_div (Fin total) hours) (js_sqrt (Fin total))"
    using a(1) b(1) c(1) d(1) s2 s3 s4
    by (simp add: scoreThread_def Let_def hours_def)
  also have "\<dots> = Fin (total / hours * sqrt total)"
    using dv ml t0 by simp
  finally show ?thesis
    using m0 by auto
qed

text \<open>
  C8, amended: with weights between 0 and \<open>2^53\<close> (the defaults 1, 2, 1.5 and 1 among
  them), for input items whose four counters are whole numbers between 0 and \<open>2^53\<close>
  and whose creation time is at most now, the trend scorer returns a ranking, and every
  score in it is a finite number and not negative: neither NaN nor an infinity. The
  divisor is the age clamped to at least 0.1 hours, so the division cannot blow up.
  Counters near the top of the range of doubles overflow to Infinity, and a negative
  weight can make the weighted total negative and the score NaN.
\<close>

theorem score_finite_and_nonnegative:
  assumes "0 \<le> nullish (weightLikes opts) 1" "nullish (weightLikes opts) 1 \<le> 2 ^ 53"
    "0 \<le> nullish (weightReposts opts) 2" "nullish (weightReposts opts) 2 \<le> 2 ^ 53"
    "0 \<le> nullish (weightReplies opts) (3 / 2)" "nullish (weightReplies opts) (3 / 2) \<le> 2 ^ 53"
    "0 \<le> nullish (weightBookmarks opts) 1" "nullish (weightBookmarks opts) 1 \<le> 2 ^ 53"
    and "\<forall>t \<in> set threads.
           0 \<le> likeCount t \<and> likeCount t \<le> 2 ^ 53 \<and>
           0 \<le> repostCount t \<and> repostCount t \<le> 2 ^ 53 \<and>
           0 \<le> answerCount t \<and> answerCount t \<le> 2 ^ 53 \<and>
           0 \<le> bookmarksOf t \<and> bookmarksOf t \<le> 2 ^ 53 \<and> createdDate t \<le> now"
  shows "\<exists>ranked. detectTrendingThreads now threads opts = Some ranked \<and>
           (\<forall>r \<in> set ranked. \<exists>x. score r = Fin x \<and> 0 \<le> x)"
proof -
  let ?scored = "filter (\<lambda>r. enoughEngagement opts (thread r))
                   (map (scoreThread now opts) (filter (withinWindow now opts) threads))"
  have fin: "\<exists>x. score r = Fin x \<and> 0 \<le> x" if "r \<in> set ?scored" for r
  proof -
    from that obtain t where "t \<in> set threads" "r = scoreThread now opts t"
      by auto
    then show ?thesis
      using scoreThread_finite [of opts t now] assms by auto
  qed
  then have "\<forall>r \<in> set ?scored. score r \<noteq> NaN"
    by fastforce
  then have "consistentComparator ?scored"
    by (simp add: consistentComparator_def list_all_iff)
  then obtain ys where ys: "sortByScore ?scored = Some ys"
    by (simp add: sortByScore_def)
  have d: "detectTrendingThreads now threads opts = Some (assignRanks 0 ys)"
    using ys by (simp add: detectTrendingThreads_def)
  have "\<exists>x. score r = Fin x \<and> 0 \<le> x" if "r \<in> set (assignRanks 0 ys)" for r
  proof -
    have "score r \<in> set (map score (assignRanks 0 ys))"
      using that by simp
    then have "score r \<in> score ` set ys"
      by (simp add: map_score_assignRanks)
    then obtain r' where "r' \<in> set ?scored" "score r = score r'"
      using sortByScore_set [OF ys] by auto
    then show ?thesis using fin by auto
  qed
  with d show ?thesis by blast
qed

theorem score_finite_and_nonnegative_witness:
  "detectTrendingThreads (10 * hourMs) olderFirst noOptions \<noteq> None \<and>
   (\<exists>x. score (hd (the (detectTrendingThreads (10 * hourMs) olderFirst noOptions))) = Fin x \<and>
        0 \<le> x)"
proof -
  have w: "0 \<le> nullish (weightLikes noOptions) 1" "nullish (weightLikes noOptions) 1 \<le> 2 ^ 53"
    "0 \<le> nullish (weightReposts noOptions) 2" "nullish (weightReposts noOptions) 2 \<le> 2 ^ 53"
    "0 \<le> nullish (weightReplies noOptions) (3 / 2)"
    "nullish (weightReplies noOptions) (3 / 2) \<le> 2 ^ 53"
    "0 \<le> nullish (weightBookmarks noOptions) 1"
    "nullish (weightBookmarks noOptions) 1 \<le> 2 ^ 53"
    by (simp_all add: noOptions_def nullish_def)
  have c: "\<forall>t \<in> set olderFirst.
           0 \<le> likeCount t \<and> likeCount t \<le> 2 ^ 53 \<and>
           0 \<le> repostCount t \<and> repostCount t \<le> 2 ^ 53 \<and>
           0 \<le> answerCount t \<and> answerCount t \<le> 2 ^ 53 \<and>
           0 \<le> bookmarksOf t \<and> bookmarksOf t \<le> 2 ^ 53 \<and> createdDate t \<le> 10 * hourMs"
    by (simp add: olderFirst_def older_def fresher_def bookmarksOf_def hourMs_def)
  obtain ranked where r: "detectTrendingThreads (10 * hourMs) olderFirst noOptions = Some ranked"
    and f: "\<forall>r \<in> set ranked. \<exists>x. score r = Fin x \<and> 0 \<le> x"
    using score_finite_and_nonnegative [OF w c] by blast
  have "ranked \<noteq> []"
    using r olderFirst_ranking by auto
  then have "hd ranked \<in> set ranked" by simp
  then show ?thesis
    using r f by auto
qed

section \<open>Engagement service: results\<close>

subsection \<open>What each function leaves alone\<close>

lemma hasAlreadyEngaged_counters:
  "counters (snd (hasAlreadyEngaged now t a s)) = counters s"
  by (simp add: hasAlreadyEngaged_def Let_def split: option.splits)

lemma hasAlreadyEngaged_log:
  "platformLog (snd (hasAlreadyEngaged now t a s)) = platformLog s"
  by (simp add: hasAlreadyEngaged_def Let_def split: option.splits)

lemma recordEngagement_counters: "counters (recordEngagement now t a au s) = counters s"
  by (simp add: recordEngagement_def Let_def)

lemma recordEngagement_log: "platformLog (recordEngagement now t a au s) = platformLog s"
  by (simp add: recordEngagement_def Let_def)

lemma exceeded_counter:
  "getCounter k (counters (snd (exceededEngagementBudget cfg now s))) =
     resetIfNeeded now (getCounter k (counters s))"
  by (cases k) (simp_all add: exceededEngagementBudget_def Let_def)

lemma exceeded_log: "platformLog (snd (exceededEngagementBudget cfg now s)) = platformLog s"
  by (simp add: exceededEngagementBudget_def Let_def)


subsection \<open>One gated action\<close>

lemma engage_counters:
  assumes "engage cfg env k target act auth dm call s = (r, s')"
  shows "counters s' = (if r = Executed then increment k (counters s) else counters s)"
proof -
  obtain b s1 where h: "hasAlreadyEngaged (nowCheck env) target act s = (b, s1)"
    by (cases "hasAlreadyEngaged (nowCheck env) target act s")
  have c1: "counters s1 = counters s"
    using hasAlreadyEngaged_counters [of "nowCheck env" target act s] h by simp
  show ?thesis
    using assms h c1
    by (cases b) (auto simp: engage_def recordEngagement_counters split: if_splits)
qed

lemma engage_log:
  assumes "engage cfg env k target act auth dm call s = (r, s')"
  shows "platformLog s' = platformLog s @
           (if r = Executed then [(call, True)] else if r = Threw then [(call, False)] else [])"
proof -
  obtain b s1 where h: "hasAlreadyEngaged (nowCheck env) target act s = (b, s1)"
    by (cases "hasAlreadyEngaged (nowCheck env) target act s")
  have c1: "platformLog s1 = platformLog s"
    using hasAlreadyEngaged_log [of "nowCheck env" target act s] h by simp
  show ?thesis
    using assms h c1
    by (cases b) (auto simp: engage_def recordEngagement_log split: if_splits)
qed

lemma engage_gate:
  assumes "engage cfg env k target act auth dm call s = (Executed, s')"
  shows "count (getCounter k (counters s)) < ceilingOf cfg k \<and> clientOk env \<and> \<not> dm"
  using assms
  by (auto simp: engage_def split: if_splits prod.splits bool.splits)

lemma engage_threw:
  assumes "engage cfg env k target act auth dm call s = (Threw, s')"
  shows "\<not> clientOk env"
  using assms
  by (auto simp: engage_def split: if_splits prod.splits bool.splits)


lemma count_increment:
  "count (getCounter k0 (increment k cs)) =
     count (getCounter k0 cs) + (if k = k0 then 1 else 0)"
  by (cases k; cases k0) simp_all

lemma resetAt_increment:
  "resetAt (getCounter k0 (increment k cs)) = resetAt (getCounter k0 cs)"
  by (cases k; cases k0) simp_all

lemma executedOf_append:
  "executedOf k0 (xs @ [(call, ok)]) =
     executedOf k0 xs + (if ok \<and> chargedTo call = k0 then 1 else 0)"
  by (simp add: executedOf_def)

lemma steady_refl: "steady cfg k s s"
  by (simp add: steady_def)

lemma steady_trans: "steady cfg k s s1 \<Longrightarrow> steady cfg k s1 s2 \<Longrightarrow> steady cfg k s s2"
  by (simp add: steady_def)

lemma engage_steady:
  assumes "engage cfg env k target act auth dm call s = (r, s')" "chargedTo call = k"
  shows "steady cfg k0 s s'"
proof -
  note c = engage_counters [OF assms(1)] and l = engage_log [OF assms(1)]
  have b: "balance k0 s' = balance k0 s"
    using c l assms(2)
    by (cases "r = Executed") (auto simp: balance_def count_increment executedOf_append)
  have r: "resetAt (getCounter k0 (counters s')) = resetAt (getCounter k0 (counters s))"
    using c by (simp add: resetAt_increment)
  have i: "count (getCounter k0 (counters s')) \<le> ceilingOf cfg k0"
    if "count (getCounter k0 (counters s)) \<le> ceilingOf cfg k0"
  proof (cases "r = Executed")
    case True
    then have "count (getCounter k (counters s)) < ceilingOf cfg k"
      using engage_gate assms(1) by blast
    then show ?thesis
      using c True that by (auto simp: count_increment)
  next
    case False
    then show ?thesis
      using c that by simp
  qed
  show ?thesis
    using b r i by (simp add: steady_def)
qed

subsection \<open>One decision\<close>

lemma execute_steady:
  assumes "executeEngagementDecision cfg env c d s = (r, s')"
  shows "steady cfg k s s'"
  using assms
  by (auto simp: executeEngagementDecision_def engage_steady steady_refl split: if_splits)


text \<open>
  The five cases as one: a decision whose action is gated by a kind is the gated
  action on the target and with the call of that case.
\<close>

lemma execute_is_engage:
  assumes "kindOfAction (decAction d) = Some k"
  shows "\<exists>dm call. chargedTo call = k \<and>
           executeEngagementDecision cfg env c d s =
             engage cfg env k (dedupTarget c d) (decAction d) (candAuthor c) dm call s"
proof -
  consider (like) "decAction d = ''like''" "k = Likes"
    | (repost) "decAction d = ''repost''" "k = Reposts"
    | (reply) "decAction d = ''reply''" "k = Replies"
    | (follow) "decAction d = ''follow''" "k = Follows"
    | (quote) "decAction d = ''quote''" "k = Reposts"
    using assms by (auto simp: kindOfAction_def split: if_splits)
  then show ?thesis
  proof cases
    case like
    then show ?thesis
      by (intro exI [of _ False] exI [of _ "LikeThread (candId c)"])
         (simp add: executeEngagementDecision_def dedupTarget_def)
  next
    case repost
    then show ?thesis
      by (intro exI [of _ False] exI [of _ "RepostThread (candId c)"])
         (simp add: executeEngagementDecision_def dedupTarget_def)
  next
    case reply
    then show ?thesis
      by (intro exI [of _ "draftText d = []"]
            exI [of _ "ReplyToThread (candId c) (draftText d)"])
         (simp add: executeEngagementDecision_def dedupTarget_def)
  next
    case follow
    then show ?thesis
      by (intro exI [of _ False] exI [of _ "FollowUserByHandle (candAuthor c)"])
         (simp add: executeEngagementDecision_def dedupTarget_def)
  next
    case quote
    then show ?thesis
      by (intro exI [of _ "draftText d = []"]
            exI [of _ "QuoteThread (candId c) (draftText d)"])
         (simp add: executeEngagementDecision_def dedupTarget_def)
  qed
qed

lemma execute_no_action:
  assumes "kindOfAction (decAction d) = None"
  shows "executeEngagementDecision cfg env c d s = (NoAction, s)"
  using assms
  by (auto simp: executeEngagementDecision_def kindOfAction_def split: if_splits)

subsection \<open>Passes within one window\<close>

lemma exceeded_steady:
  assumes "now \<le> resetAt (getCounter k (counters s))"
  shows "steady cfg k s (snd (exceededEngagementBudget cfg now s))"
  using assms
  by (simp add: steady_def balance_def exceeded_counter exceeded_log resetIfNeeded_def)

lemma passLoop_steady:
  assumes "\<forall>(c, env) \<in> set xs. nowBudget env \<le> resetAt (getCounter k (counters s))"
  shows "steady cfg k s (snd (passLoop cfg xs s))"
  using assms
proof (induction xs arbitrary: s)
  case Nil
  then show ?case by (simp add: steady_refl)
next
  case (Cons x xs)
  obtain c env where x: "x = (c, env)" by (cases x)
  obtain ex s1 where e: "exceededEngagementBudget cfg (nowBudget env) s = (ex, s1)"
    by (cases "exceededEngagementBudget cfg (nowBudget env) s")
  have now: "nowBudget env \<le> resetAt (getCounter k (counters s))"
    using Cons.prems x by simp
  have st1: "steady cfg k s s1"
    using exceeded_steady [OF now, of cfg] e by simp
  then have r1: "resetAt (getCounter k (counters s1)) = resetAt (getCounter k (counters s))"
    by (simp add: steady_def)
  have rest: "\<forall>(c, env) \<in> set xs. nowBudget env \<le> resetAt (getCounter k (counters s1))"
    using Cons.prems r1 by simp
  have ih1: "steady cfg k s (snd (passLoop cfg xs s1))"
    using steady_trans [OF st1 Cons.IH [OF rest]] .
  show ?case
  proof (cases ex)
    case True
    then show ?thesis using x e st1 by simp
  next
    case False
    show ?thesis
    proof (cases "decided env")
      case None
      then show ?thesis using x e False ih1 by simp
    next
      case (Some d)
      show ?thesis
      proof (cases "decAction d = ''none''")
        case True
        then show ?thesis using x e False Some ih1 by simp
      next
        case nn: False
        obtain r s2 where ex2: "executeEngagementDecision cfg env c d s1 = (r, s2)"
          by (cases "executeEngagementDecision cfg env c d s1")
        have st2: "steady cfg k s s2"
          using steady_trans [OF st1 execute_steady [OF ex2]] .
        then have r2: "resetAt (getCounter k (counters s2)) = resetAt (getCounter k (counters s))"
          by (simp add: steady_def)
        have rest2: "\<forall>(c, env) \<in> set xs. nowBudget env \<le> resetAt (getCounter k (counters s2))"
          using Cons.prems r2 by simp
        have ih2: "steady cfg k s (snd (passLoop cfg xs s2))"
          using steady_trans [OF st2 Cons.IH [OF rest2]] .
        show ?thesis
          using x e False Some nn ex2 st2 ih2 by (cases r) simp_all
      qed
    qed
  qed
qed

lemma runEngagementPass_steady:
  assumes "\<forall>(c, env) \<in> set p. nowBudget env \<le> resetAt (getCounter k (counters s))"
  shows "steady cfg k s (snd (runEngagementPass cfg p s))"
proof -
  have "\<forall>(c, env) \<in> set (take 5 p). nowBudget env \<le> resetAt (getCounter k (counters s))"
    using assms by (auto dest: in_set_takeD)
  then show ?thesis
    unfolding runEngagementPass_def by (rule passLoop_steady)
qed

lemma engagementPasses_steady:
  assumes "\<forall>p \<in> set passes. \<forall>(c, env) \<in> set p.
             nowBudget env \<le> resetAt (getCounter k (counters s))"
  shows "steady cfg k s (engagementPasses cfg passes s)"
  using assms
proof (induction passes arbitrary: s)
  case Nil
  then show ?case by (simp add: steady_refl)
next
  case (Cons p ps)
  let ?s1 = "snd (runEngagementPass cfg p s)"
  have st1: "steady cfg k s ?s1"
    using Cons.prems by (intro runEngagementPass_steady) simp
  then have "resetAt (getCounter k (counters ?s1)) = resetAt (getCounter k (counters s))"
    by (simp add: steady_def)
  then have "\<forall>p \<in> set ps. \<forall>(c, env) \<in> set p.
             nowBudget env \<le> resetAt (getCounter k (counters ?s1))"
    using Cons.prems by simp
  from steady_trans [OF st1 Cons.IH [OF this]] show ?case by simp
qed

text \<open>The counter right after an executed action is within the ceiling, whatever it was.\<close>

lemma executed_within_ceiling:
  assumes "executeEngagementDecision cfg env c d s = (Executed, s')"
    and "kindOfAction (decAction d) = Some k"
  shows "count (getCounter k (counters s')) \<le> ceilingOf cfg k"
proof -
  obtain dm call where
    e: "engage cfg env k (dedupTarget c d) (decAction d) (candAuthor c) dm call s = (Executed, s')"
    using execute_is_engage [OF assms(2), of cfg env c s] assms(1) by auto
  have "count (getCounter k (counters s)) < ceilingOf cfg k"
    using engage_gate [OF e] by simp
  then show ?thesis
    using engage_counters [OF e] by (simp add: count_increment)
qed

text \<open>
  C7: take a kind of action, a state of the service whose counter of that kind is
  between 0 and the ceiling (as it is when a window opens), and any sequence of
  engagement passes whose budget checks all fall within the window of that kind (none
  later than its \<open>resetAt\<close>). After these passes the counter is still at most the
  ceiling, and the platform calls charged to the kind that returned during them (quote
  is charged to reposts) number at most the ceiling.
\<close>

theorem budget_never_exceeded:
  assumes "0 \<le> count (getCounter k (counters s))"
    and "count (getCounter k (counters s)) \<le> ceilingOf cfg k"
    and "\<forall>p \<in> set passes. \<forall>(c, env) \<in> set p.
           nowBudget env \<le> resetAt (getCounter k (counters s))"
  shows "count (getCounter k (counters (engagementPasses cfg passes s))) \<le> ceilingOf cfg k \<and>
         executedOf k (platformLog (engagementPasses cfg passes s))
           - executedOf k (platformLog s) \<le> ceilingOf cfg k"
proof -
  have "steady cfg k s (engagementPasses cfg passes s)"
    using assms(3) by (rule engagementPasses_steady)
  then show ?thesis
    using assms(1,2) by (auto simp: steady_def balance_def)
qed

lemma windowOpen_value:
  "windowOpen =
     \<lparr> counters = \<lparr> likes = \<lparr>count = 0, resetAt = 3600001\<rparr>,
                    reposts = \<lparr>count = 0, resetAt = 3600001\<rparr>,
                    replies = \<lparr>count = 0, resetAt = 3600001\<rparr>,
                    follows = \<lparr>count = 0, resetAt = 3600001\<rparr> \<rparr>,
       engagedThreads = [], platformLog = [] \<rparr>"
  by (simp add: windowOpen_def newService_def exceededEngagementBudget_def resetIfNeeded_def
      hourMs_def Let_def)

lemma exhausted_value:
  "counters exhausted =
     \<lparr> likes = \<lparr>count = 2, resetAt = 3600001\<rparr>, reposts = \<lparr>count = 0, resetAt = 3600001\<rparr>,
       replies = \<lparr>count = 0, resetAt = 3600001\<rparr>, follows = \<lparr>count = 0, resetAt = 3600001\<rparr> \<rparr>"
  "platformLog exhausted = [(LikeThread ''t1'', True), (LikeThread ''t2'', True)]"
  "engagedThreads exhausted =
     [(''t1:like'', \<lparr> action = ''like'', timestamp = 1000, author = ''Alice'' \<rparr>),
      (''t2:like'', \<lparr> action = ''like'', timestamp = 2000, author = ''Alice'' \<rparr>)]"
  by (simp_all add: exhausted_def windowOpen_value threeLikes_def twoLikes_def
      runEngagementPass_def exceededEngagementBudget_def resetIfNeeded_def
      executeEngagementDecision_def engage_def hasAlreadyEngaged_def recordEngagement_def
      engagementKey_def maxAge_def candidateOf_def stepAt_def decide_def Let_def)

theorem budget_never_exceeded_witness:
  "count (getCounter Likes (counters windowOpen)) = 0 \<and>
   ceilingOf twoLikes Likes = 2 \<and>
   count (getCounter Likes (counters (engagementPasses twoLikes [threeLikes] windowOpen))) = 2 \<and>
   executedOf Likes (platformLog (engagementPasses twoLikes [threeLikes] windowOpen))
     - executedOf Likes (platformLog windowOpen) \<le> 2"
proof -
  have h1: "0 \<le> count (getCounter Likes (counters windowOpen))"
    and h2: "count (getCounter Likes (counters windowOpen)) \<le> ceilingOf twoLikes Likes"
    by (simp_all add: windowOpen_value twoLikes_def)
  have h3: "\<forall>p \<in> set [threeLikes]. \<forall>(c, env) \<in> set p.
              nowBudget env \<le> resetAt (getCounter Likes (counters windowOpen))"
    by (simp add: windowOpen_value threeLikes_def stepAt_def)
  have v: "count (getCounter Likes (counters (engagementPasses twoLikes [threeLikes] windowOpen))) = 2"
    using exhausted_value(1) by (simp add: exhausted_def)
  show ?thesis
    using budget_never_exceeded [OF h1 h2 h3] v
    by (simp add: windowOpen_value twoLikes_def)
qed

subsection \<open>The window reset\<close>



subsection \<open>Counting and recording after the call\<close>

lemma recordEngagement_lookup:
  "map_of (engagedThreads (recordEngagement now t a au s)) (engagementKey t a) =
     Some \<lparr> action = a, timestamp = now, author = au \<rparr>"
proof -
  let ?v = "\<lparr> action = a, timestamp = now, author = au \<rparr>"
  let ?st = "AList.update (engagementKey t a) ?v (engagedThreads s)"
  have m: "map_of ?st (engagementKey t a) = Some ?v"
    by (simp add: update_conv')
  have "map_of (filter (\<lambda>(k, v). \<not> (now - timestamp v > maxAge)) ?st) (engagementKey t a)
          = Some ?v"
    using m by (rule map_of_filter_in) (simp add: maxAge_def)
  with m show ?thesis
    by (simp add: recordEngagement_def Let_def)
qed

lemma hasAlreadyEngaged_ledger:
  assumes "hasAlreadyEngaged now t a s = (b, s1)"
  shows "engagedThreads s1 = engagedThreads s \<or>
         (\<exists>e. map_of (engagedThreads s) (engagementKey t a) = Some e \<and>
              maxAge < now - timestamp e \<and>
              engagedThreads s1 = AList.delete (engagementKey t a) (engagedThreads s))"
  using assms
  by (auto simp: hasAlreadyEngaged_def Let_def split: option.splits if_splits)

lemma engage_ledger:
  assumes "engage cfg env k target act auth dm call s = (r, s')"
  shows "r \<noteq> Executed \<Longrightarrow>
           engagedThreads s' = engagedThreads s \<or>
           (\<exists>e. map_of (engagedThreads s) (engagementKey target act) = Some e \<and>
                maxAge < nowCheck env - timestamp e \<and>
                engagedThreads s' = AList.delete (engagementKey target act) (engagedThreads s))"
    and "r = Executed \<Longrightarrow>
           map_of (engagedThreads s') (engagementKey target act) =
             Some \<lparr> action = act, timestamp = nowRecord env, author = auth \<rparr>"
proof -
  obtain b s1 where h: "hasAlreadyEngaged (nowCheck env) target act s = (b, s1)"
    by (cases "hasAlreadyEngaged (nowCheck env) target act s")
  have l: "r \<noteq> Executed \<Longrightarrow>
             engagedThreads s' = engagedThreads s1 \<or> engagedThreads s' = engagedThreads s"
    using assms h by (cases b) (auto simp: engage_def split: if_splits)
  show "r \<noteq> Executed \<Longrightarrow>
           engagedThreads s' = engagedThreads s \<or>
           (\<exists>e. map_of (engagedThreads s) (engagementKey target act) = Some e \<and>
                maxAge < nowCheck env - timestamp e \<and>
                engagedThreads s' = AList.delete (engagementKey target act) (engagedThreads s))"
    using l hasAlreadyEngaged_ledger [OF h] by auto
  show "r = Executed \<Longrightarrow>
           map_of (engagedThreads s') (engagementKey target act) =
             Some \<lparr> action = act, timestamp = nowRecord env, author = auth \<rparr>"
    using assms h
    by (cases b) (auto simp: engage_def recordEngagement_lookup split: if_splits)
qed

lemma toLowerCase_Alice: "toLowerCase ''Alice'' = ''alice''"
  by code_simp

text \<open>
  C10, as stated, fails: the ledger holds a follow of Alice that is older than 48 hours,
  the oracle decides to follow Alice again and the platform call throws. The ledger is
  not what it was: the dedup check that precedes the call has deleted the old record.
\<close>

theorem failed_call_after_expired_record:
  "engagedThreads staleFollow =
     [(''user:alice:follow'', \<lparr> action = ''follow'', timestamp = 0, author = ''Alice'' \<rparr>)] \<and>
   fst (executeEngagementDecision defaultCeilings followFails (candidateOf ''t1'')
         (decide ''follow'') staleFollow) = Threw \<and>
   engagedThreads (snd (executeEngagementDecision defaultCeilings followFails
         (candidateOf ''t1'') (decide ''follow'') staleFollow)) = [] \<and>
   counters (snd (executeEngagementDecision defaultCeilings followFails
         (candidateOf ''t1'') (decide ''follow'') staleFollow)) = counters staleFollow"
  by (simp add: executeEngagementDecision_def engage_def hasAlreadyEngaged_def staleFollow_def
      followFails_def newService_def defaultCeilings_def engagementKey_def candidateOf_def
      stepAt_def decide_def maxAge_def toLowerCase_Alice Let_def)

text \<open>
  C10, amended: for every candidate, decision and state of the service. If the action
  is carried out, the platform call has returned, the counter of the action's kind is
  one higher and the ledger holds the record under the decision's key, stamped with the
  time of recording. In every other case, the one where the call throws among them, the
  counters are what they were and no record is inserted: the ledger is what it was, or
  it has lost exactly the record under the decision's key, which was older than 48 hours
  when the dedup check that precedes the call read it. The call throws only when the
  client fails.
\<close>

theorem counted_and_recorded_only_after_success:
  assumes "executeEngagementDecision cfg env c d s = (r, s')"
  shows "(r = Executed \<longrightarrow>
            clientOk env \<and>
            (\<exists>k. kindOfAction (decAction d) = Some k \<and> counters s' = increment k (counters s)) \<and>
            map_of (engagedThreads s') (engagementKey (dedupTarget c d) (decAction d)) =
              Some \<lparr> action = decAction d, timestamp = nowRecord env, author = candAuthor c \<rparr>) \<and>
         (r \<noteq> Executed \<longrightarrow>
            counters s' = counters s \<and>
            (engagedThreads s' = engagedThreads s \<or>
             (\<exists>e. map_of (engagedThreads s) (engagementKey (dedupTarget c d) (decAction d)) = Some e \<and>
                  maxAge < nowCheck env - timestamp e \<and>
                  engagedThreads s' =
                    AList.delete (engagementKey (dedupTarget c d) (decAction d))
                      (engagedThreads s)))) \<and>
         (r = Threw \<longrightarrow> \<not> clientOk env)"
proof (cases "kindOfAction (decAction d)")
  case None
  then show ?thesis
    using execute_no_action [OF None, of cfg env c s] assms(1) by auto
next
  case (Some k)
  obtain dm call where
    e: "engage cfg env k (dedupTarget c d) (decAction d) (candAuthor c) dm call s = (r, s')"
    using execute_is_engage [OF Some, of cfg env c s] assms(1) by auto
  have "r = Executed \<longrightarrow> clientOk env"
    using engage_gate e by blast
  moreover have "r = Threw \<longrightarrow> \<not> clientOk env"
    using engage_threw e by blast
  moreover have "counters s' = (if r = Executed then increment k (counters s) else counters s)"
    using engage_counters [OF e] .
  moreover note engage_ledger [OF e]
  ultimately show ?thesis
    using Some by auto
qed

theorem counted_and_recorded_only_after_success_witness:
  "executeEngagementDecision defaultCeilings (stepAt 1000 ''like'' False) (candidateOf ''t9'')
     (decide ''like'') exhausted =
     (Threw, exhausted\<lparr>platformLog := platformLog exhausted @ [(LikeThread ''t9'', False)]\<rparr>) \<and>
   counters (snd (executeEngagementDecision defaultCeilings (stepAt 1000 ''like'' False)
     (candidateOf ''t9'') (decide ''like'') exhausted)) = counters exhausted \<and>
   engagedThreads (snd (executeEngagementDecision defaultCeilings (stepAt 1000 ''like'' False)
     (candidateOf ''t9'') (decide ''like'') exhausted)) = engagedThreads exhausted \<and>
   \<not> clientOk (stepAt 1000 ''like'' False)"
proof -
  let ?run = "executeEngagementDecision defaultCeilings (stepAt 1000 ''like'' False)
     (candidateOf ''t9'') (decide ''like'') exhausted"
  have h1: "?run = (fst ?run, snd ?run)"
    by simp
  have v: "?run =
     (Threw, exhausted\<lparr>platformLog := platformLog exhausted @ [(LikeThread ''t9'', False)]\<rparr>)"
    by (simp add: executeEngagementDecision_def engage_def hasAlreadyEngaged_def
        exhausted_value defaultCeilings_def engagementKey_def candidateOf_def stepAt_def
        decide_def Let_def)
  show ?thesis
    using counted_and_recorded_only_after_success [OF h1] v by simp
qed

subsection \<open>A platform call that throws\<close>

text \<open>The pass ends at the first decision whose platform call throws, whatever follows.\<close>

lemma passLoop_stops_at_throw:
  assumes "exceededEngagementBudget cfg (nowBudget env) s = (False, s1)"
    and "decided env = Some d" "decAction d \<noteq> ''none''"
    and "executeEngagementDecision cfg env c d s1 = (Threw, s2)"
  shows "passLoop cfg ((c, env) # rest) s = (Failed, s2)"
  using assms by simp

text \<open>
  C2 on the code: a pass over two candidates that the oracle says to like, where the
  platform call for the first one throws. The pass ends with the exception after that
  one call: the second candidate is never evaluated and no call is made for it, although
  a pass over the second candidate alone likes it.
\<close>

theorem pass_aborts_when_call_throws:
  "fst (runEngagementPass defaultCeilings failThenLike newService) = Failed \<and>
   platformLog (snd (runEngagementPass defaultCeilings failThenLike newService)) =
     [(LikeThread ''t1'', False)] \<and>
   fst (runEngagementPass defaultCeilings (tl failThenLike) newService) = Completed \<and>
   platformLog (snd (runEngagementPass defaultCeilings (tl failThenLike) newService)) =
     [(LikeThread ''t2'', True)]"
  by (simp add: runEngagementPass_def failThenLike_def newService_def defaultCeilings_def
      exceededEngagementBudget_def resetIfNeeded_def executeEngagementDecision_def engage_def
      hasAlreadyEngaged_def recordEngagement_def engagementKey_def maxAge_def candidateOf_def
      stepAt_def decide_def hourMs_def Let_def)

subsection \<open>Recording twice\<close>

lemma one_entry_per_key:
  assumes "distinct (map fst xs)" "map_of xs k = Some v"
  shows "length (filter (\<lambda>(k', e). k' = k) xs) = 1"
  using assms
proof (induction xs)
  case Nil
  then show ?case by simp
next
  case (Cons x xs)
  obtain a b where x: "x = (a, b)" by (cases x)
  show ?case
  proof (cases "a = k")
    case True
    then have "k \<notin> fst ` set xs"
      using Cons.prems(1) x by simp
    then have "filter (\<lambda>(k', e). k' = k) xs = []"
      by (force simp: filter_empty_conv)
    then show ?thesis using x True by simp
  next
    case False
    then show ?thesis using Cons x by simp
  qed
qed

lemma recordEngagement_distinct:
  assumes "distinct (map fst (engagedThreads s))"
  shows "distinct (map fst (engagedThreads (recordEngagement now t a au s)))"
  using assms
  by (simp add: recordEngagement_def Let_def distinct_update distinct_map_filter)

lemma hasAlreadyEngaged_after_record:
  assumes "now - n \<le> maxAge"
  shows "fst (hasAlreadyEngaged now t a (recordEngagement n t a au s))"
  using assms
  by (simp add: hasAlreadyEngaged_def recordEngagement_lookup)

text \<open>
  C4, as stated, fails: recording the like of thread t1 at millisecond 1000 and again at
  millisecond 2000 leaves a ledger that differs from the one after the first call; the
  stored timestamp is 2000.
\<close>

theorem second_record_overwrites:
  "engagedThreads (recordEngagement 1000 ''t1'' ''like'' ''Alice'' newService) =
     [(''t1:like'', \<lparr> action = ''like'', timestamp = 1000, author = ''Alice'' \<rparr>)] \<and>
   engagedThreads (recordEngagement 2000 ''t1'' ''like'' ''Alice''
                    (recordEngagement 1000 ''t1'' ''like'' ''Alice'' newService)) =
     [(''t1:like'', \<lparr> action = ''like'', timestamp = 2000, author = ''Alice'' \<rparr>)] \<and>
   recordEngagement 2000 ''t1'' ''like'' ''Alice''
     (recordEngagement 1000 ''t1'' ''like'' ''Alice'' newService) \<noteq>
   recordEngagement 1000 ''t1'' ''like'' ''Alice'' newService"
  by (simp add: recordEngagement_def newService_def engagementKey_def Let_def)

text \<open>
  C4, amended: recording under a key that already has a record replaces that record: after
  the second call the ledger holds, under the key, the record with the second call's
  timestamp and author. There is exactly one record for the key, and \<open>hasAlreadyEngaged\<close>
  answers true after either call, at any time within 48 hours of it.
\<close>

theorem record_twice_keeps_last:
  assumes "distinct (map fst (engagedThreads s))"
    and "now1 - n1 \<le> maxAge" "now2 - n2 \<le> maxAge"
  shows "map_of (engagedThreads (recordEngagement n2 t a au2 (recordEngagement n1 t a au1 s)))
           (engagementKey t a) = Some \<lparr> action = a, timestamp = n2, author = au2 \<rparr> \<and>
         length (filter (\<lambda>(k, e). k = engagementKey t a)
           (engagedThreads (recordEngagement n2 t a au2 (recordEngagement n1 t a au1 s)))) = 1 \<and>
         fst (hasAlreadyEngaged now1 t a (recordEngagement n1 t a au1 s)) \<and>
         fst (hasAlreadyEngaged now2 t a
                (recordEngagement n2 t a au2 (recordEngagement n1 t a au1 s)))"
proof -
  let ?s1 = "recordEngagement n1 t a au1 s"
  let ?s2 = "recordEngagement n2 t a au2 ?s1"
  have d: "distinct (map fst (engagedThreads ?s2))"
    using assms(1) by (intro recordEngagement_distinct)
  have m: "map_of (engagedThreads ?s2) (engagementKey t a) =
             Some \<lparr> action = a, timestamp = n2, author = au2 \<rparr>"
    by (rule recordEngagement_lookup)
  show ?thesis
    using m one_entry_per_key [OF d m] hasAlreadyEngaged_after_record [OF assms(2)]
      hasAlreadyEngaged_after_record [OF assms(3)]
    by simp
qed

theorem record_twice_keeps_last_witness:
  "map_of (engagedThreads (recordEngagement 2000 ''t1'' ''like'' ''Bob''
            (recordEngagement 1000 ''t1'' ''like'' ''Alice'' newService)))
     (engagementKey ''t1'' ''like'') = Some \<lparr> action = ''like'', timestamp = 2000, author = ''Bob'' \<rparr> \<and>
   length (filter (\<lambda>(k, e). k = engagementKey ''t1'' ''like'')
     (engagedThreads (recordEngagement 2000 ''t1'' ''like'' ''Bob''
            (recordEngagement 1000 ''t1'' ''like'' ''Alice'' newService)))) = 1 \<and>
   fst (hasAlreadyEngaged 1500 ''t1'' ''like''
          (recordEngagement 1000 ''t1'' ''like'' ''Alice'' newService)) \<and>
   fst (hasAlreadyEngaged 2500 ''t1'' ''like''
          (recordEngagement 2000 ''t1'' ''like'' ''Bob''
            (recordEngagement 1000 ''t1'' ''like'' ''Alice'' newService)))"
proof -
  have h1: "distinct (map fst (engagedThreads newService))"
    by (simp add: newService_def)
  have h2: "(1500::int) - 1000 \<le> maxAge" and h3: "(2500::int) - 2000 \<le> maxAge"
    by (simp_all add: maxAge_def)
  show ?thesis
    using record_twice_keeps_last [OF h1 h2 h3, of "''t1''" "''like''" "''Bob''" "''Alice''"]
    by simp
qed

section \<open>Mention monitor and engagement engine\<close>

lemma processMention_skips_replied:
  assumes "linkThreadId env = Some T" "hasRepliedToThread T m"
  shows "processMention (nid, env) m = m"
  using assms by (simp add: processMention_def)

lemma processMention_marks:
  assumes "linkThreadId env = Some T" "threadFetched env" "generatedReply env = Some txt"
    "txt \<noteq> []" "replyOk env"
  shows "hasRepliedToThread T (processMention (nid, env) m)"
  using assms
  by (simp add: processMention_def hasRepliedToThread_def markAsReplied_def)

text \<open>
  C6, as stated, fails in both directions. After the mention pipeline has replied to
  thread t1 and marked it, the engagement engine's dedup check for a reply to t1 is
  false. After the engagement engine has replied to t1 and recorded it, the mention
  pipeline does not skip a mention in t1: it posts a reply to it.
\<close>

theorem services_do_not_share_dedup:
  "replyLog (monitor (mentionScan [mentionOf ''n1'' ''t1''] freshServices)) =
     [(''t1'', ''thanks'', True)] \<and>
   hasRepliedToThread ''t1'' (monitor (mentionScan [mentionOf ''n1'' ''t1''] freshServices)) \<and>
   \<not> fst (hasAlreadyEngaged 5000 ''t1'' ''reply''
           (arena (mentionScan [mentionOf ''n1'' ''t1''] freshServices))) \<and>
   platformLog (arena (engagementPass defaultCeilings replyPass freshServices)) =
     [(ReplyToThread ''t1'' ''gm'', True)] \<and>
   fst (hasAlreadyEngaged 5000 ''t1'' ''reply''
         (arena (engagementPass defaultCeilings replyPass freshServices))) \<and>
   replyLog (monitor (mentionScan [mentionOf ''n1'' ''t1'']
              (engagementPass defaultCeilings replyPass freshServices))) =
     [(''t1'', ''thanks'', True)]"
  by (simp add: mentionScan_def engagementPass_def freshServices_def newMonitor_def
      newService_def mentionOf_def replyPass_def processMentions_def processMention_def
      hasRepliedToThread_def markAsReplied_def runEngagementPass_def defaultCeilings_def
      exceededEngagementBudget_def resetIfNeeded_def executeEngagementDecision_def engage_def
      hasAlreadyEngaged_def recordEngagement_def engagementKey_def maxAge_def candidateOf_def
      stepAt_def decide_def draftText_def hourMs_def Let_def)

text \<open>
  C6, amended: each service is gated by a structure of its own. A reply that the mention
  pipeline posts to thread T makes \<open>hasRepliedToThread T\<close> true for the monitor, which
  then skips every later mention in T, and leaves the engagement engine's dedup check
  for T as it was. A reply that the engagement engine records for T makes its
  \<open>hasAlreadyEngaged\<close> check for T true for 48 hours, and no engagement pass changes
  what \<open>hasRepliedToThread\<close> answers for the monitor.
\<close>

theorem each_service_has_its_own_dedup:
  assumes "linkThreadId env = Some T" "threadFetched env" "generatedReply env = Some txt"
    "txt \<noteq> []" "replyOk env"
    and "linkThreadId later = Some T"
    and "now - n \<le> maxAge"
  shows "hasRepliedToThread T (monitor (mentionScan [(nid, env)] p)) \<and>
         mentionScan [(nid', later)] (mentionScan [(nid, env)] p) = mentionScan [(nid, env)] p \<and>
         fst (hasAlreadyEngaged now T ''reply'' (arena (mentionScan [(nid, env)] p))) =
           fst (hasAlreadyEngaged now T ''reply'' (arena p)) \<and>
         fst (hasAlreadyEngaged now T ''reply'' (recordEngagement n T ''reply'' au (arena p))) \<and>
         hasRepliedToThread T (monitor (engagementPass cfg topThreads p)) =
           hasRepliedToThread T (monitor p)"
proof -
  have m: "hasRepliedToThread T (processMention (nid, env) (monitor p))"
    using assms(1-5) by (rule processMention_marks)
  have s: "processMention (nid', later) (processMention (nid, env) (monitor p)) =
             processMention (nid, env) (monitor p)"
    using assms(6) m by (rule processMention_skips_replied)
  show ?thesis
    using m s hasAlreadyEngaged_after_record [OF assms(7)]
    by (simp add: mentionScan_def engagementPass_def processMentions_def)
qed

theorem each_service_has_its_own_dedup_witness:
  "hasRepliedToThread ''t1'' (monitor (mentionScan [mentionOf ''n1'' ''t1''] freshServices)) \<and>
   mentionScan [mentionOf ''n2'' ''t1''] (mentionScan [mentionOf ''n1'' ''t1''] freshServices) =
     mentionScan [mentionOf ''n1'' ''t1''] freshServices \<and>
   \<not> fst (hasAlreadyEngaged 5000 ''t1'' ''reply''
           (arena (mentionScan [mentionOf ''n1'' ''t1''] freshServices))) \<and>
   fst (hasAlreadyEngaged 5000 ''t1'' ''reply''
         (recordEngagement 1000 ''t1'' ''reply'' ''Alice'' (arena freshServices))) \<and>
   \<not> hasRepliedToThread ''t1'' (monitor (engagementPass defaultCeilings replyPass freshServices))"
proof -
  have h: "linkThreadId (snd (mentionOf ''n1'' ''t1'')) = Some ''t1''"
    "threadFetched (snd (mentionOf ''n1'' ''t1''))"
    "generatedReply (snd (mentionOf ''n1'' ''t1'')) = Some ''thanks''"
    "''thanks'' \<noteq> []" "replyOk (snd (mentionOf ''n1'' ''t1''))"
    "linkThreadId (snd (mentionOf ''n2'' ''t1'')) = Some ''t1''"
    by (simp_all add: mentionOf_def)
  have a: "(5000::int) - 1000 \<le> maxAge"
    by (simp add: maxAge_def)
  have e: "\<not> fst (hasAlreadyEngaged 5000 ''t1'' ''reply'' (arena freshServices))"
    "\<not> hasRepliedToThread ''t1'' (monitor freshServices)"
    by (simp_all add: freshServices_def newService_def newMonitor_def hasAlreadyEngaged_def
        hasRepliedToThread_def)
  have n: "mentionOf ''n1'' ''t1'' = (''n1'', snd (mentionOf ''n1'' ''t1''))"
    "mentionOf ''n2'' ''t1'' = (''n2'', snd (mentionOf ''n2'' ''t1''))"
    by (simp_all add: mentionOf_def)
  show ?thesis
    using each_service_has_its_own_dedup [OF h a, of "''n1''" freshServices "''n2''"
        "''Alice''" defaultCeilings replyPass] e n
    by simp
qed

section \<open>Timers: results\<close>

lemma chainedStep_bound:
  assumes "armed t + inFlight t \<le> 1"
  shows "armed (chainedStep e t) + inFlight (chainedStep e t) \<le> 1"
  using assms by (cases e) (auto simp: scheduleNext_def)

text \<open>
  C5, as stated, fails for mention scanning: once monitoring has started, two ticks of
  the interval with no scan settling in between leave two scans in flight.
\<close>

theorem mention_scans_overlap:
  "scansInFlight (fold intervalStep [IntervalTick, IntervalTick]
                   (startMonitoring idleMonitor)) = 2"
  by (simp add: startMonitoring_def idleMonitor_def)

text \<open>
  C5, amended: for the posting, discovery and engagement tasks of the Arena service,
  whatever the order in which timeouts fire, bodies settle (by success or by failure)
  and the service is stopped: the armed timeouts and the invocations in flight number
  at most one together. So at most one invocation of a task's body is in flight, and
  the next timeout is armed only when none is, after the current invocation has
  settled. Mention scanning runs on a fixed interval instead and is not covered.
\<close>

theorem chained_task_never_reenters:
  assumes "armed t + inFlight t \<le> 1"
  shows "armed (fold chainedStep events t) + inFlight (fold chainedStep events t) \<le> 1"
  using assms
proof (induction events arbitrary: t)
  case Nil
  then show ?case by simp
next
  case (Cons e es)
  have "armed (chainedStep e t) + inFlight (chainedStep e t) \<le> 1"
    using Cons.prems by (rule chainedStep_bound)
  then show ?case
    using Cons.IH by simp
qed

theorem chained_task_never_reenters_witness:
  "armed initialized + inFlight initialized \<le> 1 \<and>
   inFlight (fold chainedStep [Fires, Fires, Settles, Fires] initialized) = 1 \<and>
   armed (fold chainedStep [Fires, Fires, Settles, Fires] initialized) +
     inFlight (fold chainedStep [Fires, Fires, Settles, Fires] initialized) \<le> 1"
proof -
  have h: "armed initialized + inFlight initialized \<le> 1"
    by (simp add: initialized_def scheduleNext_def)
  have v: "inFlight (fold chainedStep [Fires, Fires, Settles, Fires] initialized) = 1"
    by (simp add: initialized_def scheduleNext_def)
  show ?thesis
    using chained_task_never_reenters [OF h, of "[Fires, Fires, Settles, Fires]"] h v by simp
qed

end
